theory Spec2Isabelle
  imports Complex_Main "HOL-Library.Word" "HOL-Library.Log_Nat"
begin

unbundle bit_operations_syntax

text \<open>
  Lurien is a sampling profiler in one header, \<open>include/lurien/lurien.h\<close>. A \<open>Scope\<close>
  object tells the calling thread's \<open>ThreadSamplingData\<close> that a named scope is entered
  (constructor) and left (destructor); a worker thread calls \<open>TakeSample\<close> on every
  thread's data; the destructor of a \<open>ThreadSamplingData\<close> turns the counts into
  proportions and hands the tree to the installed \<open>OutputReceiver\<close>. This theory embeds
  the per-thread state with its three operations and the \<open>Init\<close>/\<open>Stop\<close> pair, and
  proves what the specification says about them.
\<close>

section \<open>Data model of \<open>include/lurien/lurien.h\<close>\<close>

text \<open>
  The C++ type \<open>double\<close> of \<open>ScopeOutput::cpu_proportion_\<close>, an IEEE 754 binary64
  number. Only the quotient \<open>double(parent.samples_) / total_samples_\<close> is ever stored
  in it, so a value is a finite number (given by the rational it denotes), the result of
  dividing a positive number by zero, or the result of dividing zero by zero.
\<close>

datatype double = Fin rat | PosInf | NaN

text \<open>
  Rounding to the nearest integer, ties to the even one: the rule by which the 53-bit
  significand of a binary64 is chosen.
\<close>

definition round_half_even :: "rat \<Rightarrow> int" where
  "round_half_even y =
     (let f = \<lfloor>y\<rfloor>; r = y - of_int f in
      if r < 1 / 2 then f
      else if 1 / 2 < r then f + 1
      else if even f then f else f + 1)"

text \<open>The exponent \<open>e\<close> of a positive number \<open>x\<close>: \<open>2 ^ e \<le> x < 2 ^ (e + 1)\<close>.\<close>

definition binary_exponent :: "rat \<Rightarrow> int" where
  "binary_exponent x =
     (if 1 \<le> x then bitlen \<lfloor>x\<rfloor> - 1 else - bitlen (\<lceil>1 / x\<rceil> - 1))"

text \<open>
  The binary64 nearest to a non-negative number (round to nearest, ties to even, the
  default rounding mode): the number is scaled so that its integer part has 53 bits,
  rounded to an integer, and scaled back. The numbers rounded here are integers below
  \<open>2 ^ 64\<close> and quotients of two such integers, so the exponent stays well inside the
  range of normal binary64 numbers: overflow and subnormal numbers do not arise.
\<close>

definition round_double :: "rat \<Rightarrow> rat" where
  "round_double x =
     (if x \<le> 0 then 0
      else let e = binary_exponent x in
        of_int (round_half_even (x * power_int 2 (52 - e))) * power_int 2 (e - 52))"

text \<open>
  \<open>double(a) / b\<close> for two unsigned 64-bit integers: \<open>a\<close> is converted to \<open>double\<close>
  by the cast, \<open>b\<close> by the usual arithmetic conversions (both conversions round when
  the integer has more than 53 bits), and the quotient is rounded. A zero divisor gives
  \<open>NaN\<close> for \<open>0 / 0\<close> and infinity otherwise.
\<close>

definition double_div :: "64 word \<Rightarrow> 64 word \<Rightarrow> double" where
  "double_div a b =
     (if b = 0 then (if a = 0 then NaN else PosInf)
      else Fin (round_double
                  (round_double (of_nat (unat a)) / round_double (of_nat (unat b)))))"

text \<open>
  \<open>struct ScopeOutput : OutputNode\<close>: the inherited child list \<open>scope_outputs_\<close>
  (a \<open>std::list\<close>, in insertion order), \<open>name_\<close>, \<open>samples_\<close> and \<open>cpu_proportion_\<close>.
\<close>

datatype ScopeOutput =
  ScopeOutput (scope_outputs: "ScopeOutput list") (name: string)
    (samples: "64 word") (cpu_proportion: double)

text \<open>\<open>struct ThreadOutput : OutputNode\<close>: the top-level child list and the thread id.\<close>

datatype ThreadOutput =
  ThreadOutput (thread_scope_outputs: "ScopeOutput list") (thread_id: nat)

text \<open>
  Pointers into the tree. Elements of a \<open>std::list\<close> never move and the program never
  erases one, so the address of a node is determined by, and determines, the sequence of
  child positions leading to it from \<open>output_\<close>. An \<open>OutputNode*\<close> is such a path, the
  empty path being \<open>&output_\<close>; a \<open>ScopeOutput*\<close> is \<open>None\<close> for \<open>nullptr\<close> or
  \<open>Some\<close> of a non-empty path.
\<close>

type_synonym node_ptr = "nat list"

datatype error = NullDereference | InvalidPointer | SystemError

text \<open>The child list of the \<open>OutputNode\<close> a pointer designates.\<close>

fun children_at :: "ScopeOutput list \<Rightarrow> node_ptr \<Rightarrow> ScopeOutput list option" where
  "children_at ts [] = Some ts"
| "children_at ts (i # p) =
     (if i < length ts then children_at (scope_outputs (ts ! i)) p else None)"

text \<open>The \<open>ScopeOutput\<close> a pointer designates.\<close>

fun node_at :: "ScopeOutput list \<Rightarrow> node_ptr \<Rightarrow> ScopeOutput option" where
  "node_at ts [] = None"
| "node_at ts [i] = (if i < length ts then Some (ts ! i) else None)"
| "node_at ts (i # j # p) =
     (if i < length ts then node_at (scope_outputs (ts ! i)) (j # p) else None)"

text \<open>\<open>parent->scope_outputs_.push_back(n)\<close> through the pointer \<open>parent\<close>.\<close>

fun push_back_at :: "ScopeOutput list \<Rightarrow> node_ptr \<Rightarrow> ScopeOutput \<Rightarrow> ScopeOutput list option" where
  "push_back_at ts [] n = Some (ts @ [n])"
| "push_back_at ts (i # p) n =
     (if i < length ts then
        (case ts ! i of ScopeOutput cs nm smp prop \<Rightarrow>
           (case push_back_at cs p n of
              None \<Rightarrow> None
            | Some cs' \<Rightarrow> Some (ts[i := ScopeOutput cs' nm smp prop])))
      else None)"

text \<open>\<open>++current_scope_->samples_\<close> through the pointer \<open>current_scope_\<close>.\<close>

fun increment_samples_at :: "ScopeOutput list \<Rightarrow> node_ptr \<Rightarrow> ScopeOutput list option" where
  "increment_samples_at ts [] = None"
| "increment_samples_at ts [i] =
     (if i < length ts then
        (case ts ! i of ScopeOutput cs nm smp prop \<Rightarrow>
           Some (ts[i := ScopeOutput cs nm (smp + 1) prop]))
      else None)"
| "increment_samples_at ts (i # j # p) =
     (if i < length ts then
        (case ts ! i of ScopeOutput cs nm smp prop \<Rightarrow>
           (case increment_samples_at cs (j # p) of
              None \<Rightarrow> None
            | Some cs' \<Rightarrow> Some (ts[i := ScopeOutput cs' nm smp prop])))
      else None)"

text \<open>
  \<open>class ThreadSamplingData\<close>. \<open>std::size_t\<close> is taken to be 64 bits wide. The
  \<open>std::unordered_map<std::size_t, ScopeOutput*>\<close> maps a key to a pointer that may be
  null. The mutex is not modelled: every member function runs under it from start to end,
  so calls on one object are sequential. \<open>hash_fn_\<close> is \<open>std::hash<std::string>\<close>, which
  the standard leaves unspecified; it is a parameter of the operations.
\<close>

record ThreadSamplingData =
  current_scope_hash :: "64 word"
  total_samples :: "64 word"
  scope_data :: "64 word \<rightharpoonup> node_ptr option"
  current_scope :: "node_ptr option"
  thread_output :: "ScopeOutput list"

text \<open>The constructor: both counters zero, the table and the tree empty, no current scope.\<close>

definition ThreadSamplingData_init :: ThreadSamplingData where
  "ThreadSamplingData_init =
     \<lparr>current_scope_hash = 0, total_samples = 0, scope_data = Map.empty,
      current_scope = None, thread_output = []\<rparr>"

section \<open>\<open>ThreadSamplingData::Update\<close> and \<open>ThreadSamplingData::TakeSample\<close>\<close>

text \<open>
  \<open>Update\<close>. The new key is the old one XOR the hash of the name. In the branch that
  creates a node, \<open>scope_data_[parent_hash]\<close> is \<open>operator[]\<close>: on a missing key it inserts
  a null pointer and returns it, and the following \<open>parent->scope_outputs_\<close> dereferences
  it; that, and a stored null pointer, is the result \<open>NullDereference\<close>.
  \<open>InvalidPointer\<close> is a pointer that designates no node of the tree.
\<close>

definition Update :: "(string \<Rightarrow> 64 word) \<Rightarrow> string \<Rightarrow> ThreadSamplingData \<Rightarrow> error + ThreadSamplingData" where
  "Update hash_fn nm s =
     (let hsh = current_scope_hash s XOR hash_fn nm in
      if hsh = 0 then Inr (s\<lparr>current_scope_hash := hsh, current_scope := None\<rparr>)
      else
        (case scope_data s hsh of
           None \<Rightarrow>
             (let parent_hash = hsh XOR hash_fn nm;
                  parent = (if parent_hash = 0 then Some []
                            else (case scope_data s parent_hash of None \<Rightarrow> None | Some q \<Rightarrow> q))
              in case parent of
                   None \<Rightarrow> Inl NullDereference
                 | Some pp \<Rightarrow>
                     (case children_at (thread_output s) pp of
                        None \<Rightarrow> Inl InvalidPointer
                      | Some cs \<Rightarrow>
                          (case push_back_at (thread_output s) pp (ScopeOutput [] nm 0 (Fin 0)) of
                             None \<Rightarrow> Inl InvalidPointer
                           | Some out' \<Rightarrow>
                               Inr (s\<lparr>current_scope_hash := hsh,
                                      thread_output := out',
                                      current_scope := Some (pp @ [length cs]),
                                      scope_data := (scope_data s)(hsh \<mapsto> Some (pp @ [length cs]))\<rparr>))))
         | Some q \<Rightarrow> Inr (s\<lparr>current_scope_hash := hsh, current_scope := q\<rparr>)))"

text \<open>\<open>TakeSample\<close>: count the sample on the current node, if any, and on the thread.\<close>

definition TakeSample :: "ThreadSamplingData \<Rightarrow> error + ThreadSamplingData" where
  "TakeSample s =
     (case current_scope s of
        None \<Rightarrow> Inr (s\<lparr>total_samples := total_samples s + 1\<rparr>)
      | Some p \<Rightarrow>
          (case increment_samples_at (thread_output s) p of
             None \<Rightarrow> Inl InvalidPointer
           | Some out' \<Rightarrow> Inr (s\<lparr>thread_output := out', total_samples := total_samples s + 1\<rparr>)))"

text \<open>
  What happens to one thread's state: the constructor and the destructor of a \<open>Scope\<close>
  both call \<open>Update\<close> with the scope's name, and the sampler thread calls \<open>TakeSample\<close>.
\<close>

datatype event = Enter string | Exit string | Sample

fun step :: "(string \<Rightarrow> 64 word) \<Rightarrow> event \<Rightarrow> ThreadSamplingData \<Rightarrow> error + ThreadSamplingData" where
  "step hash_fn (Enter nm) s = Update hash_fn nm s"
| "step hash_fn (Exit nm) s = Update hash_fn nm s"
| "step hash_fn Sample s = TakeSample s"

fun run :: "(string \<Rightarrow> 64 word) \<Rightarrow> event list \<Rightarrow> ThreadSamplingData \<Rightarrow> error + ThreadSamplingData" where
  "run hash_fn [] s = Inr s"
| "run hash_fn (e # es) s =
     (case step hash_fn e s of Inl x \<Rightarrow> Inl x | Inr s' \<Rightarrow> run hash_fn es s')"

section \<open>The destructor, \<open>Init\<close> and \<open>Stop\<close>\<close>

text \<open>
  The lambda \<open>accumulate_stats\<close> of the destructor, with \<open>total_samples_\<close> as its first
  argument. \<open>accumulate_children\<close> is its \<open>for\<close> loop over \<open>parent.scope_outputs_\<close>: the
  third argument is \<open>parent.samples_\<close> as the loop has updated it so far, each child is
  accumulated in place and its returned count added. When the loop is over the parent's
  proportion is set from the sum, and the sum is returned (it is the count of the result).
\<close>

fun accumulate_stats :: "64 word \<Rightarrow> ScopeOutput \<Rightarrow> ScopeOutput"
  and accumulate_children :: "64 word \<Rightarrow> ScopeOutput list \<Rightarrow> 64 word \<Rightarrow> ScopeOutput list \<times> 64 word"
where
  "accumulate_stats tot (ScopeOutput cs nm smp prop) =
     (case accumulate_children tot cs smp of
        (cs', smp') \<Rightarrow> ScopeOutput cs' nm smp' (double_div smp' tot))"
| "accumulate_children tot [] acc = ([], acc)"
| "accumulate_children tot (c # cs) acc =
     (let c' = accumulate_stats tot c in
      case accumulate_children tot cs (acc + samples c') of
        (cs', acc') \<Rightarrow> (c' # cs', acc'))"

text \<open>
  \<open>output_\<close> as the destructor leaves it before emission: the thread id recorded and
  every top-level node accumulated (the returned counts are dropped).
\<close>

definition accumulate_output :: "nat \<Rightarrow> ThreadSamplingData \<Rightarrow> ThreadOutput" where
  "accumulate_output tid s =
     ThreadOutput (map (accumulate_stats (total_samples s)) (thread_output s)) tid"

text \<open>
  \<open>OutputReceiver\<close> is abstract in the source (\<open>HandleOutput\<close> is pure virtual). A
  receiver is modelled by what it has been handed, one entry per call of \<open>HandleOutput\<close>.
\<close>

datatype OutputReceiver = OutputReceiver (handled: "ThreadOutput list")

definition HandleOutput :: "OutputReceiver \<Rightarrow> ThreadOutput \<Rightarrow> OutputReceiver" where
  "HandleOutput r out = OutputReceiver (handled r @ [out])"

text \<open>A \<open>std::thread\<close>: joinable from its start until it has been joined.\<close>

datatype thread = Thread (joinable: bool)

text \<open>
  The static members of \<open>struct Ext\<close> that \<open>Init\<close>, \<open>Stop\<close> and the destructor use. The
  \<open>std::unique_ptr\<close>s are options, \<open>None\<close> when null. (\<open>samplers\<close>, \<open>sampler_sync\<close> and
  \<open>thread_data\<close> belong to the registry and are left out.)
\<close>

record Ext =
  keep_sampling :: bool
  sampling_worker :: "thread option"
  receiver :: "OutputReceiver option"

text \<open>The initial values of the static members.\<close>

definition Ext_init :: Ext where
  "Ext_init = \<lparr>keep_sampling = True, sampling_worker = None, receiver = None\<rparr>"

text \<open>
  The destructor \<open>~ThreadSamplingData\<close> on the thread \<open>tid\<close>: accumulate, then
  \<open>Ext::receiver->HandleOutput(output_)\<close>, which dereferences the \<open>unique_ptr\<close>.
\<close>

definition ThreadSamplingData_destroy :: "nat \<Rightarrow> Ext \<Rightarrow> ThreadSamplingData \<Rightarrow> error + Ext" where
  "ThreadSamplingData_destroy tid ext s =
     (let out = accumulate_output tid s in
      case receiver ext of
        None \<Rightarrow> Inl NullDereference
      | Some r \<Rightarrow> Inr (ext\<lparr>receiver := Some (HandleOutput r out)\<rparr>))"

text \<open>
  \<open>Init\<close>: with no worker yet, install the receiver (the argument is a \<open>unique_ptr\<close> and
  may be null) and start the worker; otherwise nothing.
\<close>

definition Init :: "OutputReceiver option \<Rightarrow> Ext \<Rightarrow> Ext" where
  "Init r ext =
     (if sampling_worker ext = None
      then ext\<lparr>receiver := r, sampling_worker := Some (Thread True)\<rparr>
      else ext)"

text \<open>
  \<open>Stop\<close>: with \<open>keep_sampling\<close> set and a worker present, clear the flag and join the
  worker; otherwise nothing. \<open>join\<close> on a thread that is not joinable throws
  \<open>std::system_error\<close>.
\<close>

definition Stop :: "Ext \<Rightarrow> error + Ext" where
  "Stop ext =
     (if keep_sampling ext \<and> sampling_worker ext \<noteq> None then
        (case sampling_worker ext of
           None \<Rightarrow> Inl NullDereference
         | Some w \<Rightarrow>
             if joinable w
             then Inr (ext\<lparr>keep_sampling := False, sampling_worker := Some (Thread False)\<rparr>)
             else Inl SystemError)
      else Inr ext)"

section \<open>Vocabulary of the proofs\<close>

text \<open>
  A node whose child list has been replaced: what a change made in place somewhere below
  a node leaves of it.
\<close>

definition set_scope_outputs :: "ScopeOutput list \<Rightarrow> ScopeOutput \<Rightarrow> ScopeOutput" where
  "set_scope_outputs cs m = ScopeOutput cs (name m) (samples m) (cpu_proportion m)"

text \<open>
  The number of samples counted in a subtree, and in a list of subtrees, as natural
  numbers: the sum of \<open>samples_\<close> over the nodes.
\<close>

fun subtree_total :: "ScopeOutput \<Rightarrow> nat" where
  "subtree_total (ScopeOutput cs nm smp prop) = unat smp + sum_list (map subtree_total cs)"

text \<open>The same sum over a child list.\<close>

definition forest_total :: "ScopeOutput list \<Rightarrow> nat" where
  "forest_total ts = sum_list (map subtree_total ts)"

text \<open>
  What holds of every state of a \<open>ThreadSamplingData\<close>. The path id is 0 exactly when there is no current scope; otherwise the table maps the
  path id to the current scope. The table has no entry for 0, and every entry is a
  non-null pointer to a node of the tree.
\<close>

definition state_invariant :: "ThreadSamplingData \<Rightarrow> bool" where
  "state_invariant s \<longleftrightarrow>
     (current_scope_hash s = 0 \<longrightarrow> current_scope s = None) \<and>
     (current_scope_hash s \<noteq> 0 \<longrightarrow> scope_data s (current_scope_hash s) = Some (current_scope s)) \<and>
     scope_data s 0 = None \<and>
     (\<forall>k v. scope_data s k = Some v \<longrightarrow> (\<exists>p. v = Some p \<and> node_at (thread_output s) p \<noteq> None))"

text \<open>
  A hash function for the worked examples: the length of the name. (Any function will do;
  the theorems hold for every \<open>hash_fn\<close>.)
\<close>

definition example_hash :: "string \<Rightarrow> 64 word" where
  "example_hash nm = of_nat (length nm)"

text \<open>
  Scope markers used in stack order: every \<open>Exit\<close> closes the innermost open scope and
  names it, and at the end no scope is open. The second argument is the stack of open
  scopes, innermost first. Samples may fall anywhere.
\<close>

fun well_nested :: "event list \<Rightarrow> string list \<Rightarrow> bool" where
  "well_nested [] st = (st = [])"
| "well_nested (Enter nm # es) st = well_nested es (nm # st)"
| "well_nested (Exit nm # es) st =
     (case st of [] \<Rightarrow> False | x # st' \<Rightarrow> nm = x \<and> well_nested es st')"
| "well_nested (Sample # es) st = well_nested es st"

text \<open>The XOR of the hashes of the open scopes.\<close>

fun stack_hash :: "(string \<Rightarrow> 64 word) \<Rightarrow> string list \<Rightarrow> 64 word" where
  "stack_hash hash_fn [] = 0"
| "stack_hash hash_fn (nm # st) = hash_fn nm XOR stack_hash hash_fn st"

section \<open>Rounding to \<open>double\<close>\<close>

lemma round_half_even_bounds:
  "of_int (round_half_even y) \<le> y + 1 / 2" "y - 1 / 2 \<le> of_int (round_half_even y)"
  "\<lfloor>y\<rfloor> \<le> round_half_even y" "round_half_even y \<le> \<lfloor>y\<rfloor> + 1"
  unfolding round_half_even_def Let_def by (auto; linarith)+

lemma round_half_even_of_int [simp]: "round_half_even (of_int n) = n"
  by (simp add: round_half_even_def)

lemma round_half_even_mono:
  assumes "x \<le> y"
  shows "round_half_even x \<le> round_half_even y"
proof (cases "\<lfloor>x\<rfloor> = \<lfloor>y\<rfloor>")
  case True
  with assms have "x - of_int \<lfloor>x\<rfloor> \<le> y - of_int \<lfloor>y\<rfloor>" by simp
  with True show ?thesis
    unfolding round_half_even_def Let_def by auto
next
  case False
  with assms have "\<lfloor>x\<rfloor> + 1 \<le> \<lfloor>y\<rfloor>"
    using floor_mono [OF assms] by linarith
  with round_half_even_bounds(4) [of x] round_half_even_bounds(3) [of y]
  show ?thesis by linarith
qed

lemma binary_exponent_bounds:
  assumes "0 < x"
  shows "power_int 2 (binary_exponent x) \<le> x" "x < power_int 2 (binary_exponent x + 1)"
proof -
  have "power_int 2 (binary_exponent x) \<le> x \<and> x < power_int 2 (binary_exponent x + 1)"
  proof (cases "1 \<le> x")
    case True
    let ?n = "\<lfloor>x\<rfloor>"
    from True have n: "0 < ?n" by linarith
    from bitlen_bounds [OF n] have lo: "2 ^ nat (bitlen ?n - 1) \<le> ?n" and hi: "?n < 2 ^ nat (bitlen ?n)"
      by simp_all
    from n have b1: "1 \<le> bitlen ?n" by (auto simp: bitlen_alt_def)
    have "(2 :: rat) ^ nat (bitlen ?n - 1) = of_int (2 ^ nat (bitlen ?n - 1))" by simp
    also have "\<dots> \<le> of_int ?n" using lo by (simp only: of_int_le_iff)
    also have "\<dots> \<le> x" by simp
    finally have 1: "(2 :: rat) ^ nat (bitlen ?n - 1) \<le> x" .
    from hi have "?n + 1 \<le> 2 ^ nat (bitlen ?n)" by simp
    then have "(of_int (?n + 1) :: rat) \<le> of_int (2 ^ nat (bitlen ?n))" by (simp only: of_int_le_iff)
    also have "(of_int (2 ^ nat (bitlen ?n)) :: rat) = 2 ^ nat (bitlen ?n)" by simp
    finally have "(of_int (?n + 1) :: rat) \<le> 2 ^ nat (bitlen ?n)" .
    moreover have "x < of_int (?n + 1)" by linarith
    ultimately have 2: "x < (2 :: rat) ^ nat (bitlen ?n)" by (rule less_le_trans [rotated])
    from b1 have "power_int (2 :: rat) (bitlen ?n - 1) = 2 ^ nat (bitlen ?n - 1)"
      "power_int (2 :: rat) (bitlen ?n - 1 + 1) = 2 ^ nat (bitlen ?n)"
      by (simp_all add: power_int_def)
    with 1 2 True show ?thesis by (simp add: binary_exponent_def)
  next
    case False
    let ?y = "1 / x"
    let ?n = "\<lceil>?y\<rceil> - 1"
    from False assms have y1: "1 < ?y" by simp
    then have n: "0 < ?n" by linarith
    from bitlen_bounds [OF n] have lo: "2 ^ nat (bitlen ?n - 1) \<le> ?n" and hi: "?n < 2 ^ nat (bitlen ?n)"
      by simp_all
    from n have b1: "1 \<le> bitlen ?n" by (auto simp: bitlen_alt_def)
    have yn: "of_int ?n < ?y" "?y \<le> of_int (?n + 1)" by linarith+
    from hi have "?n + 1 \<le> 2 ^ nat (bitlen ?n)" by simp
    then have "(of_int (?n + 1) :: rat) \<le> of_int (2 ^ nat (bitlen ?n))" by (simp only: of_int_le_iff)
    also have "(of_int (2 ^ nat (bitlen ?n)) :: rat) = 2 ^ nat (bitlen ?n)" by simp
    finally have "(of_int (?n + 1) :: rat) \<le> 2 ^ nat (bitlen ?n)" .
    with yn(2) have up: "?y \<le> 2 ^ nat (bitlen ?n)" by (rule order_trans)
    have "(2 :: rat) ^ nat (bitlen ?n - 1) = of_int (2 ^ nat (bitlen ?n - 1))" by simp
    also have "\<dots> \<le> of_int ?n" using lo by (simp only: of_int_le_iff)
    also have "\<dots> < ?y" by (rule yn(1))
    finally have dn: "(2 :: rat) ^ nat (bitlen ?n - 1) < ?y" .
    have p: "(0 :: rat) < 2 ^ k" for k by simp
    from up assms have 1: "1 / 2 ^ nat (bitlen ?n) \<le> x"
      by (simp add: field_simps)
    from dn assms have 2: "x < 1 / 2 ^ nat (bitlen ?n - 1)"
      by (simp add: field_simps)
    from b1 have "power_int (2 :: rat) (- bitlen ?n) = 1 / 2 ^ nat (bitlen ?n)"
      "power_int (2 :: rat) (- bitlen ?n + 1) = 1 / 2 ^ nat (bitlen ?n - 1)"
      by (simp_all add: power_int_def field_simps nat_diff_distrib)
    with 1 2 False show ?thesis by (simp add: binary_exponent_def)
  qed
  then show "power_int 2 (binary_exponent x) \<le> x" "x < power_int 2 (binary_exponent x + 1)"
    by simp_all
qed

lemma binary_exponent_mono:
  assumes "0 < x" "x \<le> y"
  shows "binary_exponent x \<le> binary_exponent y"
proof (rule ccontr)
  assume "\<not> ?thesis"
  then have "binary_exponent y + 1 \<le> binary_exponent x" by simp
  then have "power_int (2 :: rat) (binary_exponent y + 1) \<le> power_int 2 (binary_exponent x)"
    by (intro power_int_increasing) simp_all
  also have "\<dots> \<le> x" by (rule binary_exponent_bounds(1) [OF assms(1)])
  also note assms(2)
  also have "y < power_int 2 (binary_exponent y + 1)"
    using assms by (intro binary_exponent_bounds(2)) simp
  finally show False by simp
qed

lemma round_double_nonpos [simp]: "x \<le> 0 \<Longrightarrow> round_double x = 0"
  by (simp add: round_double_def)

lemma round_double_pos_eq:
  "0 < x \<Longrightarrow> round_double x =
     of_int (round_half_even (x * power_int 2 (52 - binary_exponent x))) *
     power_int 2 (binary_exponent x - 52)"
  by (simp add: round_double_def Let_def)

lemma power_int_2_split:
  "power_int (2 :: rat) a * power_int 2 (b - a) = power_int 2 b"
  by (simp flip: power_int_add)

lemma round_double_bounds:
  assumes "0 < x"
  shows "power_int 2 (binary_exponent x) \<le> round_double x"
    and "round_double x \<le> power_int 2 (binary_exponent x + 1)"
proof -
  let ?e = "binary_exponent x"
  let ?s = "x * power_int 2 (52 - ?e)"
  have pos: "(0 :: rat) < power_int 2 k" for k by simp
  have "power_int 2 ?e * power_int 2 (52 - ?e) \<le> ?s"
    using binary_exponent_bounds(1) [OF assms] pos [of "52 - ?e"]
    by (intro mult_right_mono) simp_all
  then have lo: "of_int (2 ^ 52) \<le> ?s"
    by (simp add: power_int_2_split)
  have "?s \<le> power_int 2 (?e + 1) * power_int 2 (52 - ?e)"
    using binary_exponent_bounds(2) [OF assms] pos [of "52 - ?e"]
    by (intro mult_right_mono) simp_all
  also have "power_int (2 :: rat) (?e + 1) * power_int 2 (52 - ?e) = power_int 2 53"
    by (simp flip: power_int_add)
  finally have hi: "?s \<le> of_int (2 ^ 53)" by simp
  from round_half_even_mono [OF lo] have m_lo: "2 ^ 52 \<le> round_half_even ?s"
    by (simp only: round_half_even_of_int)
  from round_half_even_mono [OF hi] have m_hi: "round_half_even ?s \<le> 2 ^ 53"
    by (simp only: round_half_even_of_int)
  have "power_int (2 :: rat) ?e = of_int (2 ^ 52) * power_int 2 (?e - 52)"
    using power_int_2_split [of 52 ?e] by simp
  also have "\<dots> \<le> of_int (round_half_even ?s) * power_int 2 (?e - 52)"
    using m_lo pos [of "?e - 52"] by (intro mult_right_mono) (simp_all only: of_int_le_iff less_imp_le)
  finally show "power_int 2 ?e \<le> round_double x"
    by (simp only: round_double_pos_eq [OF assms])
  have "of_int (round_half_even ?s) * power_int 2 (?e - 52) \<le> of_int (2 ^ 53) * power_int (2 :: rat) (?e - 52)"
    using m_hi pos [of "?e - 52"] by (intro mult_right_mono) (simp_all only: of_int_le_iff less_imp_le)
  also have "\<dots> = power_int 2 (?e + 1)"
    using power_int_2_split [of 53 "?e + 1"] by simp
  finally show "round_double x \<le> power_int 2 (?e + 1)"
    by (simp only: round_double_pos_eq [OF assms])
qed

lemma round_double_nonneg: "0 \<le> round_double x"
proof (cases "0 < x")
  case True
  have "(0 :: rat) \<le> power_int 2 (binary_exponent x)" by simp
  with round_double_bounds(1) [OF True] show ?thesis by linarith
next
  case False
  then show ?thesis by simp
qed

lemma round_double_pos: "0 < x \<Longrightarrow> 0 < round_double x"
proof -
  assume x: "0 < x"
  have "(0 :: rat) < power_int 2 (binary_exponent x)" by simp
  with round_double_bounds(1) [OF x] show ?thesis by linarith
qed

lemma round_double_mono:
  assumes "x \<le> y"
  shows "round_double x \<le> round_double y"
proof (cases "0 < x")
  case False
  then show ?thesis by (simp add: round_double_nonneg)
next
  case x: True
  with assms have y: "0 < y" by simp
  from binary_exponent_mono [OF x assms] have e: "binary_exponent x \<le> binary_exponent y" .
  show ?thesis
  proof (cases "binary_exponent x = binary_exponent y")
    case True
    let ?k = "power_int (2 :: rat) (52 - binary_exponent y)"
    have "x * ?k \<le> y * ?k" using assms by (intro mult_right_mono) simp_all
    then have "round_half_even (x * ?k) \<le> round_half_even (y * ?k)" by (rule round_half_even_mono)
    then have "(of_int (round_half_even (x * ?k)) :: rat) \<le> of_int (round_half_even (y * ?k))"
      by (simp only: of_int_le_iff)
    then have "of_int (round_half_even (x * ?k)) * power_int 2 (binary_exponent y - 52)
        \<le> of_int (round_half_even (y * ?k)) * power_int (2 :: rat) (binary_exponent y - 52)"
      by (intro mult_right_mono) simp_all
    then show ?thesis
      by (simp only: round_double_pos_eq [OF x] round_double_pos_eq [OF y] True)
  next
    case False
    with e have "binary_exponent x + 1 \<le> binary_exponent y" by simp
    then have "power_int (2 :: rat) (binary_exponent x + 1) \<le> power_int 2 (binary_exponent y)"
      by (intro power_int_increasing) simp_all
    with round_double_bounds(2) [OF x] round_double_bounds(1) [OF y] show ?thesis
      by linarith
  qed
qed

lemma round_double_1 [simp]: "round_double 1 = 1"
  by code_simp

lemma round_double_le_1: "x \<le> 1 \<Longrightarrow> round_double x \<le> 1"
  using round_double_mono [of x 1] by simp

text \<open>The rounded values the worked examples need.\<close>

lemma round_double_values [simp]:
  "round_double 2 = 2" "round_double 3 = 3" "round_double 4 = 4" "round_double 5 = 5"
  "round_double 10 = 10"
  "round_double (1 / 2) = 1 / 2" "round_double (3 / 4) = 3 / 4"
  "round_double (1 / 10) = 7205759403792794 / 2 ^ 56"
  "round_double (3 / 10) = 5404319552844595 / 2 ^ 54"
  by code_simp+

text \<open>The proportion stored for a count \<open>a\<close> and a total \<open>t\<close>, as a function of the two numbers.\<close>

lemma double_div_Fin:
  "b \<noteq> 0 \<Longrightarrow> double_div a b =
     Fin (round_double (round_double (of_nat (unat a)) / round_double (of_nat (unat b))))"
  by (simp add: double_div_def)

lemma rounded_quotient_mono:
  assumes "a \<le> b" and "0 < t"
  shows "round_double (round_double (of_nat a) / round_double (of_nat t))
           \<le> round_double (round_double (of_nat b) / round_double (of_nat (t :: nat)))"
proof -
  from assms(2) have "(0 :: rat) < of_nat t" by simp
  then have t: "0 < round_double (of_nat t)" by (rule round_double_pos)
  from assms(1) have "(of_nat a :: rat) \<le> of_nat b" by simp
  then have "round_double (of_nat a) \<le> round_double (of_nat b)" by (rule round_double_mono)
  with t have "round_double (of_nat a) / round_double (of_nat t)
      \<le> round_double (of_nat b) / round_double (of_nat t)"
    by (simp add: divide_right_mono)
  then show ?thesis by (rule round_double_mono)
qed

lemma rounded_quotient_le_1:
  assumes "a \<le> t" and "0 < t"
  shows "round_double (round_double (of_nat a) / round_double (of_nat (t :: nat))) \<le> 1"
proof -
  from assms(2) have "(0 :: rat) < of_nat t" by simp
  then have t: "0 < round_double (of_nat t)" by (rule round_double_pos)
  from assms have "round_double (round_double (of_nat a) / round_double (of_nat t))
      \<le> round_double (round_double (of_nat t) / round_double (of_nat t))"
    by (rule rounded_quotient_mono)
  also from t have "round_double (of_nat t) / round_double (of_nat t) = 1" by simp
  finally show ?thesis by simp
qed

section \<open>Pointers and the tree\<close>

lemma xor_cancel: "(a XOR b) XOR b = (a::64 word)"
  by (simp add: xor.assoc)

lemma children_at_node_at:
  "children_at ts p = (if p = [] then Some ts else map_option scope_outputs (node_at ts p))"
  by (induction ts p rule: node_at.induct) auto

lemma children_at_append:
  "children_at ts (p @ q) = (case children_at ts p of None \<Rightarrow> None | Some cs \<Rightarrow> children_at cs q)"
  by (induction p arbitrary: ts) auto

lemma node_at_snoc:
  "node_at ts (p @ [i]) =
     (case children_at ts p of None \<Rightarrow> None
      | Some cs \<Rightarrow> if i < length cs then Some (cs ! i) else None)"
  by (induction ts p rule: node_at.induct) auto

lemma set_scope_outputs_sel [simp]:
  "scope_outputs (set_scope_outputs cs m) = cs"
  "name (set_scope_outputs cs m) = name m"
  "samples (set_scope_outputs cs m) = samples m"
  "cpu_proportion (set_scope_outputs cs m) = cpu_proportion m"
  by (simp_all add: set_scope_outputs_def)

lemma push_back_at_Cons:
  "push_back_at ts (i # p) n =
     (if i < length ts
      then map_option (\<lambda>cs'. ts[i := set_scope_outputs cs' (ts ! i)])
             (push_back_at (scope_outputs (ts ! i)) p n)
      else None)"
  by (cases "ts ! i") (simp add: set_scope_outputs_def split: option.splits)

declare push_back_at.simps(2) [simp del]

declare push_back_at_Cons [simp]

lemma push_back_at_defined:
  "children_at ts p = Some cs \<Longrightarrow> \<exists>ts'. push_back_at ts p n = Some ts'"
proof (induction p arbitrary: ts cs)
  case Nil
  then show ?case by simp
next
  case (Cons i p)
  from Cons.prems have i: "i < length ts" and c: "children_at (scope_outputs (ts ! i)) p = Some cs"
    by (auto split: if_splits)
  from Cons.IH [OF c] obtain cs' where "push_back_at (scope_outputs (ts ! i)) p n = Some cs'"
    by blast
  with i show ?case by (simp add: push_back_at_Cons)
qed

lemma push_back_at_length:
  "push_back_at ts p n = Some ts' \<Longrightarrow> p \<noteq> [] \<Longrightarrow> length ts' = length ts"
  by (cases p) (auto split: if_splits)

lemma children_at_push_back_at:
  "push_back_at ts p n = Some ts' \<Longrightarrow> children_at ts p = Some cs \<Longrightarrow>
   children_at ts' p = Some (cs @ [n])"
proof (induction p arbitrary: ts ts' cs)
  case Nil
  then show ?case by simp
next
  case (Cons i p)
  then show ?case
    by (auto simp: push_back_at_Cons split: if_splits)
qed

text \<open>
  Appending a child somewhere in the tree moves no existing node and changes, of the
  existing nodes, only the number of children of the parent.
\<close>

lemma node_at_Cons:
  "node_at ts (i # q) =
     (if i < length ts
      then (if q = [] then Some (ts ! i) else node_at (scope_outputs (ts ! i)) q)
      else None)"
  by (cases q) simp_all

lemma node_at_push_back_at:
  "push_back_at ts p n = Some ts' \<Longrightarrow> node_at ts q = Some m \<Longrightarrow>
   \<exists>m'. node_at ts' q = Some m' \<and> name m' = name m \<and> samples m' = samples m \<and>
        cpu_proportion m' = cpu_proportion m \<and>
        length (scope_outputs m') = (if q = p then Suc (length (scope_outputs m)) else length (scope_outputs m))"
proof (induction q arbitrary: ts ts' p m)
  case Nil
  then show ?case by simp
next
  case (Cons i q)
  from Cons.prems(2) have i: "i < length ts"
    by (simp add: node_at_Cons split: if_splits)
  show ?case
  proof (cases p)
    case Nil
    with Cons.prems i show ?thesis
      by (cases q) (auto simp: nth_append)
  next
    case p: (Cons k p')
    from Cons.prems(1) p obtain z where k: "k < length ts"
      and z: "push_back_at (scope_outputs (ts ! k)) p' n = Some z"
      and ts': "ts' = ts[k := set_scope_outputs z (ts ! k)]"
      by (auto split: if_splits)
    show ?thesis
    proof (cases "k = i")
      case False
      with Cons.prems(2) i p ts' show ?thesis
        by (auto simp: node_at_Cons split: if_splits)
    next
      case True
      show ?thesis
      proof (cases "q = []")
        case q: True
        with Cons.prems(2) i have m: "m = ts ! i" by simp
        show ?thesis
        proof (cases "p' = []")
          case True
          with z True q m i p ts' \<open>k = i\<close> show ?thesis by auto
        next
          case False
          with z have "length z = length (scope_outputs (ts ! k))"
            by (simp add: push_back_at_length)
          with False q m i p ts' \<open>k = i\<close> show ?thesis by auto
        qed
      next
        case q: False
        with Cons.prems(2) i have "node_at (scope_outputs (ts ! i)) q = Some m"
          by (simp add: node_at_Cons)
        from Cons.IH [OF _ this, of p' z] z True
        obtain m' where "node_at z q = Some m'" "name m' = name m" "samples m' = samples m"
          "cpu_proportion m' = cpu_proportion m"
          "length (scope_outputs m') = (if q = p' then Suc (length (scope_outputs m)) else length (scope_outputs m))"
          by auto
        with q i p ts' True show ?thesis
          by (simp add: node_at_Cons)
      qed
    qed
  qed
qed

lemma increment_samples_at_Cons:
  "increment_samples_at ts (i # p) =
     (if i < length ts then
        (if p = [] then
           Some (ts[i := ScopeOutput (scope_outputs (ts ! i)) (name (ts ! i)) (samples (ts ! i) + 1)
                          (cpu_proportion (ts ! i))])
         else map_option (\<lambda>cs'. ts[i := set_scope_outputs cs' (ts ! i)])
                (increment_samples_at (scope_outputs (ts ! i)) p))
      else None)"
  by (cases "ts ! i"; cases p) (simp_all add: set_scope_outputs_def split: option.splits)

declare increment_samples_at.simps(2,3) [simp del]

declare increment_samples_at_Cons [simp]

lemma increment_samples_at_defined:
  "node_at ts p = Some m \<Longrightarrow> \<exists>ts'. increment_samples_at ts p = Some ts'"
  by (induction ts p arbitrary: m rule: node_at.induct) (auto split: if_splits)

lemma increment_samples_at_length:
  "increment_samples_at ts p = Some ts' \<Longrightarrow> length ts' = length ts"
  by (cases p) (auto split: if_splits)

lemma node_at_increment_samples_at:
  "increment_samples_at ts p = Some ts' \<Longrightarrow> node_at ts q = Some m \<Longrightarrow>
   \<exists>m'. node_at ts' q = Some m' \<and> name m' = name m \<and>
        samples m' = (if q = p then samples m + 1 else samples m) \<and>
        cpu_proportion m' = cpu_proportion m \<and>
        length (scope_outputs m') = length (scope_outputs m)"
proof (induction q arbitrary: ts ts' p m)
  case Nil
  then show ?case by simp
next
  case (Cons i q)
  from Cons.prems(2) have i: "i < length ts"
    by (simp add: node_at_Cons split: if_splits)
  show ?case
  proof (cases p)
    case Nil
    with Cons.prems show ?thesis by simp
  next
    case p: (Cons k p')
    from Cons.prems(1) p have k: "k < length ts"
      by (auto split: if_splits)
    show ?thesis
    proof (cases "k = i")
      case False
      with Cons.prems i p k show ?thesis
        by (auto simp: node_at_Cons split: if_splits)
    next
      case True
      show ?thesis
      proof (cases "p' = []")
        case p': True
        with Cons.prems i p True show ?thesis
          by (auto simp: node_at_Cons split: if_splits)
      next
        case p': False
        with Cons.prems(1) p k obtain z where
          z: "increment_samples_at (scope_outputs (ts ! k)) p' = Some z"
          and ts': "ts' = ts[k := set_scope_outputs z (ts ! k)]"
          by auto
        show ?thesis
        proof (cases "q = []")
          case q: True
          from z have "length z = length (scope_outputs (ts ! k))"
            by (rule increment_samples_at_length)
          with Cons.prems(2) q p' i p ts' True show ?thesis by auto
        next
          case q: False
          with Cons.prems(2) i have "node_at (scope_outputs (ts ! i)) q = Some m"
            by (simp add: node_at_Cons)
          from Cons.IH [OF _ this, of p' z] z True
          obtain m' where "node_at z q = Some m'" "name m' = name m"
            "samples m' = (if q = p' then samples m + 1 else samples m)"
            "cpu_proportion m' = cpu_proportion m"
            "length (scope_outputs m') = length (scope_outputs m)"
            by auto
          with q i p ts' True show ?thesis
            by (simp add: node_at_Cons)
        qed
      qed
    qed
  qed
qed

lemma node_at_increment_samples_at_None:
  "increment_samples_at ts p = Some ts' \<Longrightarrow> node_at ts q = None \<Longrightarrow> node_at ts' q = None"
proof (induction ts q arbitrary: p ts' rule: node_at.induct)
  case (1 ts)
  then show ?case by simp
next
  case (2 ts i)
  then show ?case by (cases p) (auto split: if_splits)
next
  case (3 ts i j q)
  then show ?case by (cases p) (auto simp: nth_list_update split: if_splits)
qed

lemma subtree_total_eq:
  "subtree_total m = unat (samples m) + forest_total (scope_outputs m)"
  by (cases m) (simp add: forest_total_def)

lemma forest_total_simps [simp]:
  "forest_total [] = 0"
  "forest_total (m # ts) = subtree_total m + forest_total ts"
  "forest_total (ts @ us) = forest_total ts + forest_total us"
  by (simp_all add: forest_total_def)

lemma forest_total_update:
  "i < length ts \<Longrightarrow> forest_total (ts[i := m]) + subtree_total (ts ! i) = forest_total ts + subtree_total m"
  by (induction ts arbitrary: i) (auto split: nat.splits)

lemma forest_total_push_back_at:
  "push_back_at ts p n = Some ts' \<Longrightarrow> forest_total ts' = forest_total ts + subtree_total n"
proof (induction p arbitrary: ts ts')
  case Nil
  then show ?case by auto
next
  case (Cons i p)
  from Cons.prems obtain cs' where i: "i < length ts"
    and cs': "push_back_at (scope_outputs (ts ! i)) p n = Some cs'"
    and ts': "ts' = ts[i := set_scope_outputs cs' (ts ! i)]"
    by (auto split: if_splits)
  have "forest_total cs' = forest_total (scope_outputs (ts ! i)) + subtree_total n"
    by (rule Cons.IH [OF cs'])
  moreover have "forest_total ts' + subtree_total (ts ! i) =
      forest_total ts + subtree_total (set_scope_outputs cs' (ts ! i))"
    unfolding ts' by (rule forest_total_update [OF i])
  ultimately show ?case
    by (simp add: subtree_total_eq)
qed

lemma unat_Suc_le: "unat (w + 1 :: 64 word) \<le> unat w + 1"
  by (metis unat_word_ariths(1) mod_less_eq_dividend unsigned_1)

lemma forest_total_increment_samples_at:
  "increment_samples_at ts p = Some ts' \<Longrightarrow> forest_total ts' \<le> forest_total ts + 1"
proof (induction ts p arbitrary: ts' rule: increment_samples_at.induct)
  case (1 ts)
  then show ?case by simp
next
  case (2 ts i)
  then have i: "i < length ts"
    and ts': "ts' = ts[i := ScopeOutput (scope_outputs (ts ! i)) (name (ts ! i)) (samples (ts ! i) + 1)
                          (cpu_proportion (ts ! i))]"
    by (auto split: if_splits)
  have "forest_total ts' + subtree_total (ts ! i) =
      forest_total ts + subtree_total (ScopeOutput (scope_outputs (ts ! i)) (name (ts ! i)) (samples (ts ! i) + 1)
                          (cpu_proportion (ts ! i)))"
    unfolding ts' by (rule forest_total_update [OF i])
  then show ?case
    using unat_Suc_le [of "samples (ts ! i)"] by (simp add: subtree_total_eq)
next
  case (3 ts i j p)
  from "3.prems" obtain cs' where i: "i < length ts"
    and cs': "increment_samples_at (scope_outputs (ts ! i)) (j # p) = Some cs'"
    and ts': "ts' = ts[i := set_scope_outputs cs' (ts ! i)]"
    by (auto split: if_splits)
  obtain x1 x2 x3 x4 where m: "ts ! i = ScopeOutput x1 x2 x3 x4" by (cases "ts ! i")
  have "forest_total cs' \<le> forest_total (scope_outputs (ts ! i)) + 1"
    using "3.IH" [OF i m] cs' m by simp
  moreover have "forest_total ts' + subtree_total (ts ! i) =
      forest_total ts + subtree_total (set_scope_outputs cs' (ts ! i))"
    unfolding ts' by (rule forest_total_update [OF i])
  ultimately show ?case
    by (simp add: subtree_total_eq)
qed

section \<open>The invariant of \<open>Update\<close> and \<open>TakeSample\<close>\<close>

lemma state_invariant_init: "state_invariant ThreadSamplingData_init"
  by (simp add: state_invariant_def ThreadSamplingData_init_def)

lemma state_invariant_current:
  assumes "state_invariant s" and "current_scope_hash s \<noteq> 0"
  shows "\<exists>p m. current_scope s = Some p \<and> scope_data s (current_scope_hash s) = Some (Some p) \<and>
           node_at (thread_output s) p = Some m"
  using assms unfolding state_invariant_def by (metis not_Some_eq)

lemma state_invariant_entry:
  "state_invariant s \<Longrightarrow> scope_data s k = Some v \<Longrightarrow>
   \<exists>p m. v = Some p \<and> node_at (thread_output s) p = Some m"
  unfolding state_invariant_def by (metis not_Some_eq)

lemma state_invariant_grow:
  assumes inv: "state_invariant s"
    and old: "\<And>p m. node_at (thread_output s) p = Some m \<Longrightarrow> \<exists>m'. node_at out' p = Some m'"
  shows "state_invariant (s\<lparr>thread_output := out'\<rparr>)"
proof -
  have "\<exists>p. v = Some p \<and> node_at out' p \<noteq> None" if "scope_data s k = Some v" for k v
    using state_invariant_entry [OF inv that] old by fastforce
  with inv show ?thesis
    by (simp add: state_invariant_def)
qed

lemma state_invariant_insert:
  assumes inv: "state_invariant s" and nz: "h \<noteq> 0"
    and p: "node_at (thread_output s) p = Some m"
  shows "state_invariant
           (s\<lparr>current_scope_hash := h, current_scope := Some p,
               scope_data := (scope_data s)(h \<mapsto> Some p)\<rparr>)"
proof -
  have "\<exists>q. v = Some q \<and> node_at (thread_output s) q \<noteq> None"
    if "((scope_data s)(h \<mapsto> Some p)) k = Some v" for k v
  proof (cases "k = h")
    case True
    with that p show ?thesis by auto
  next
    case False
    with that have "scope_data s k = Some v" by simp
    from state_invariant_entry [OF inv this] show ?thesis by auto
  qed
  moreover from inv have "scope_data s 0 = None"
    by (simp add: state_invariant_def)
  ultimately show ?thesis
    using nz unfolding state_invariant_def by simp
qed

text \<open>The pointer \<open>parent\<close> that \<open>Update\<close> computes when it creates a node.\<close>

lemma Update_parent:
  assumes inv: "state_invariant s"
  shows "\<exists>pp cs. (if current_scope_hash s = 0 then Some []
                   else (case scope_data s (current_scope_hash s) of None \<Rightarrow> None | Some q \<Rightarrow> q)) = Some pp \<and>
           pp = (case current_scope s of None \<Rightarrow> [] | Some p \<Rightarrow> p) \<and>
           children_at (thread_output s) pp = Some cs"
proof (cases "current_scope_hash s = 0")
  case True
  with inv have "current_scope s = None" by (simp add: state_invariant_def)
  with True show ?thesis by simp
next
  case False
  from state_invariant_current [OF inv False] obtain p m where
    "current_scope s = Some p" "scope_data s (current_scope_hash s) = Some (Some p)"
    "node_at (thread_output s) p = Some m" by blast
  moreover from this have "p \<noteq> []" by auto
  ultimately show ?thesis
    using False by (simp add: children_at_node_at)
qed

lemma Update_zero:
  "current_scope_hash s XOR hash_fn nm = 0 \<Longrightarrow>
   Update hash_fn nm s = Inr (s\<lparr>current_scope_hash := 0, current_scope := None\<rparr>)"
  by (simp add: Update_def)

lemma Update_seen:
  "current_scope_hash s XOR hash_fn nm \<noteq> 0 \<Longrightarrow>
   scope_data s (current_scope_hash s XOR hash_fn nm) = Some q \<Longrightarrow>
   Update hash_fn nm s =
     Inr (s\<lparr>current_scope_hash := current_scope_hash s XOR hash_fn nm, current_scope := q\<rparr>)"
  by (simp add: Update_def)

lemma Update_create:
  assumes inv: "state_invariant s"
    and nz: "current_scope_hash s XOR hash_fn nm \<noteq> 0"
    and new: "scope_data s (current_scope_hash s XOR hash_fn nm) = None"
  shows "\<exists>cs out'.
           children_at (thread_output s) (case current_scope s of None \<Rightarrow> [] | Some p \<Rightarrow> p) = Some cs \<and>
           push_back_at (thread_output s) (case current_scope s of None \<Rightarrow> [] | Some p \<Rightarrow> p)
             (ScopeOutput [] nm 0 (Fin 0)) = Some out' \<and>
           Update hash_fn nm s =
             Inr (s\<lparr>current_scope_hash := current_scope_hash s XOR hash_fn nm,
                    thread_output := out',
                    current_scope := Some ((case current_scope s of None \<Rightarrow> [] | Some p \<Rightarrow> p) @ [length cs]),
                    scope_data := (scope_data s)(current_scope_hash s XOR hash_fn nm \<mapsto>
                       Some ((case current_scope s of None \<Rightarrow> [] | Some p \<Rightarrow> p) @ [length cs]))\<rparr>)"
proof -
  let ?pp = "case current_scope s of None \<Rightarrow> [] | Some p \<Rightarrow> p"
  from Update_parent [OF inv] obtain cs where
    par: "(if current_scope_hash s = 0 then Some []
           else (case scope_data s (current_scope_hash s) of None \<Rightarrow> None | Some q \<Rightarrow> q)) = Some ?pp"
    and cs: "children_at (thread_output s) ?pp = Some cs"
    by auto
  from push_back_at_defined [OF cs] obtain out' where
    out': "push_back_at (thread_output s) ?pp (ScopeOutput [] nm 0 (Fin 0)) = Some out'"
    by blast
  have "Update hash_fn nm s =
             Inr (s\<lparr>current_scope_hash := current_scope_hash s XOR hash_fn nm,
                    thread_output := out',
                    current_scope := Some (?pp @ [length cs]),
                    scope_data := (scope_data s)(current_scope_hash s XOR hash_fn nm \<mapsto>
                       Some (?pp @ [length cs]))\<rparr>)"
    unfolding Update_def Let_def xor_cancel
    using nz new par cs out' by simp
  with cs out' show ?thesis by blast
qed

lemma Update_invariant:
  assumes inv: "state_invariant s"
  shows "\<exists>s'. Update hash_fn nm s = Inr s' \<and> state_invariant s' \<and>
           current_scope_hash s' = current_scope_hash s XOR hash_fn nm \<and>
           total_samples s' = total_samples s \<and>
           forest_total (thread_output s') = forest_total (thread_output s)"
proof (cases "current_scope_hash s XOR hash_fn nm = 0")
  case True
  from inv have "state_invariant (s\<lparr>current_scope_hash := 0, current_scope := None\<rparr>)"
    by (simp add: state_invariant_def)
  with True show ?thesis
    by (simp add: Update_zero)
next
  case nz: False
  show ?thesis
  proof (cases "scope_data s (current_scope_hash s XOR hash_fn nm)")
    case (Some q)
    from inv Some nz
    have "state_invariant (s\<lparr>current_scope_hash := current_scope_hash s XOR hash_fn nm, current_scope := q\<rparr>)"
      by (simp add: state_invariant_def)
    with nz Some show ?thesis
      by (simp add: Update_seen)
  next
    case None
    let ?pp = "case current_scope s of None \<Rightarrow> [] | Some p \<Rightarrow> p"
    let ?h = "current_scope_hash s XOR hash_fn nm"
    from Update_create [of s hash_fn nm, OF inv nz None] obtain cs out' where
      cs: "children_at (thread_output s) ?pp = Some cs"
      and out': "push_back_at (thread_output s) ?pp (ScopeOutput [] nm 0 (Fin 0)) = Some out'"
      and upd: "Update hash_fn nm s =
             Inr (s\<lparr>current_scope_hash := ?h, thread_output := out',
                    current_scope := Some (?pp @ [length cs]),
                    scope_data := (scope_data s)(?h \<mapsto> Some (?pp @ [length cs]))\<rparr>)"
      by blast
    have new: "node_at out' (?pp @ [length cs]) = Some (ScopeOutput [] nm 0 (Fin 0))"
      using children_at_push_back_at [OF out' cs] by (simp add: node_at_snoc)
    have "state_invariant (s\<lparr>thread_output := out'\<rparr>)"
    proof (rule state_invariant_grow [OF inv])
      fix q m
      assume "node_at (thread_output s) q = Some m"
      from node_at_push_back_at [OF out' this]
      show "\<exists>m'. node_at out' q = Some m'" by blast
    qed
    from state_invariant_insert [OF this nz, of "?pp @ [length cs]"] new
    have "state_invariant (s\<lparr>thread_output := out', current_scope_hash := ?h,
                    current_scope := Some (?pp @ [length cs]),
                    scope_data := (scope_data s)(?h \<mapsto> Some (?pp @ [length cs]))\<rparr>)"
      by simp
    also have "(s\<lparr>thread_output := out', current_scope_hash := ?h,
                    current_scope := Some (?pp @ [length cs]),
                    scope_data := (scope_data s)(?h \<mapsto> Some (?pp @ [length cs]))\<rparr>) =
        (s\<lparr>current_scope_hash := ?h, thread_output := out',
                    current_scope := Some (?pp @ [length cs]),
                    scope_data := (scope_data s)(?h \<mapsto> Some (?pp @ [length cs]))\<rparr>)"
      by simp
    finally have "state_invariant (s\<lparr>current_scope_hash := ?h, thread_output := out',
                    current_scope := Some (?pp @ [length cs]),
                    scope_data := (scope_data s)(?h \<mapsto> Some (?pp @ [length cs]))\<rparr>)" .
    moreover have "forest_total out' = forest_total (thread_output s)"
      using forest_total_push_back_at [OF out'] by simp
    ultimately show ?thesis
      using upd by simp
  qed
qed

lemma TakeSample_invariant:
  assumes inv: "state_invariant s"
  shows "\<exists>s'. TakeSample s = Inr s' \<and> state_invariant s' \<and>
           current_scope_hash s' = current_scope_hash s \<and>
           current_scope s' = current_scope s \<and>
           scope_data s' = scope_data s \<and>
           total_samples s' = total_samples s + 1 \<and>
           forest_total (thread_output s') \<le> forest_total (thread_output s) + 1"
proof (cases "current_scope s")
  case None
  with inv show ?thesis
    by (simp add: TakeSample_def state_invariant_def)
next
  case (Some p)
  with inv have nz: "current_scope_hash s \<noteq> 0"
    by (auto simp: state_invariant_def)
  from state_invariant_current [OF inv nz] Some obtain m where
    m: "node_at (thread_output s) p = Some m" by auto
  from increment_samples_at_defined [OF m] obtain out' where
    out': "increment_samples_at (thread_output s) p = Some out'" by blast
  have "state_invariant (s\<lparr>thread_output := out'\<rparr>)"
  proof (rule state_invariant_grow [OF inv])
    fix q m
    assume "node_at (thread_output s) q = Some m"
    from node_at_increment_samples_at [OF out' this]
    show "\<exists>m'. node_at out' q = Some m'" by blast
  qed
  then have "state_invariant (s\<lparr>thread_output := out', total_samples := total_samples s + 1\<rparr>)"
    by (simp add: state_invariant_def)
  with Some out' forest_total_increment_samples_at [OF out'] show ?thesis
    by (simp add: TakeSample_def)
qed

lemma step_invariant:
  "state_invariant s \<Longrightarrow> \<exists>s'. step hash_fn e s = Inr s' \<and> state_invariant s'"
  using Update_invariant [of s hash_fn] TakeSample_invariant [of s]
  by (cases e) auto

lemma run_append:
  "run hash_fn (es @ fs) s =
     (case run hash_fn es s of Inl x \<Rightarrow> Inl x | Inr s' \<Rightarrow> run hash_fn fs s')"
  by (induction es arbitrary: s) (auto split: sum.splits)

lemma run_invariant:
  "state_invariant s \<Longrightarrow> \<exists>s'. run hash_fn es s = Inr s' \<and> state_invariant s'"
proof (induction es arbitrary: s)
  case Nil
  then show ?case by simp
next
  case (Cons e es)
  from step_invariant [OF Cons.prems] obtain s1 where
    "step hash_fn e s = Inr s1" "state_invariant s1" by blast
  with Cons.IH [of s1] show ?case by simp
qed

lemma reachable_invariant:
  "run hash_fn es ThreadSamplingData_init = Inr s \<Longrightarrow> state_invariant s"
  using run_invariant [OF state_invariant_init, of hash_fn es] by auto

lemma run_well_nested:
  "state_invariant s \<Longrightarrow> well_nested es st \<Longrightarrow>
   \<exists>s'. run hash_fn es s = Inr s' \<and> state_invariant s' \<and>
        current_scope_hash s' = current_scope_hash s XOR stack_hash hash_fn st"
proof (induction es st arbitrary: s rule: well_nested.induct)
  case (1 st)
  then show ?case by simp
next
  case (2 nm es st)
  from Update_invariant [OF "2.prems"(1), of hash_fn nm] obtain s1 where
    s1: "Update hash_fn nm s = Inr s1" "state_invariant s1"
      "current_scope_hash s1 = current_scope_hash s XOR hash_fn nm" by blast
  from "2.IH" [OF s1(2)] "2.prems"(2) obtain s' where
    "run hash_fn es s1 = Inr s'" "state_invariant s'"
    "current_scope_hash s' = current_scope_hash s1 XOR stack_hash hash_fn (nm # st)"
    by auto
  with s1 show ?case
    by (simp add: xor.assoc [symmetric] xor_cancel)
next
  case (3 nm es st)
  from "3.prems"(2) obtain st' where st: "st = nm # st'" and wn: "well_nested es st'"
    by (auto split: list.splits)
  from Update_invariant [OF "3.prems"(1), of hash_fn nm] obtain s1 where
    s1: "Update hash_fn nm s = Inr s1" "state_invariant s1"
      "current_scope_hash s1 = current_scope_hash s XOR hash_fn nm" by blast
  from "3.IH" [OF st s1(2) wn] obtain s' where
    "run hash_fn es s1 = Inr s'" "state_invariant s'"
    "current_scope_hash s' = current_scope_hash s1 XOR stack_hash hash_fn st'"
    by auto
  with s1 st show ?case
    by (simp add: xor.assoc)
next
  case (4 es st)
  from TakeSample_invariant [OF "4.prems"(1)] obtain s1 where
    s1: "TakeSample s = Inr s1" "state_invariant s1"
      "current_scope_hash s1 = current_scope_hash s" by blast
  from "4.IH" [OF s1(2)] "4.prems"(2) obtain s' where
    "run hash_fn es s1 = Inr s'" "state_invariant s'"
    "current_scope_hash s' = current_scope_hash s1 XOR stack_hash hash_fn st"
    by auto
  with s1 show ?case by simp
qed

text \<open>The equations that evaluate a run on concrete events.\<close>

lemmas run_eval = Update_def TakeSample_def ThreadSamplingData_init_def Let_def
  example_hash_def set_scope_outputs_def

section \<open>Accumulation\<close>

lemma accumulate_children_eq:
  "accumulate_children tot cs acc =
     (map (accumulate_stats tot) cs,
      acc + sum_list (map (\<lambda>c. samples (accumulate_stats tot c)) cs))"
  by (induction cs arbitrary: acc) (simp_all add: Let_def add.assoc)

lemma accumulate_stats_sel:
  "scope_outputs (accumulate_stats tot m) = map (accumulate_stats tot) (scope_outputs m)"
  "name (accumulate_stats tot m) = name m"
  "samples (accumulate_stats tot m) =
     samples m + sum_list (map samples (scope_outputs (accumulate_stats tot m)))"
  "cpu_proportion (accumulate_stats tot m) = double_div (samples (accumulate_stats tot m)) tot"
  by (cases m, simp add: accumulate_children_eq comp_def)+

lemma samples_accumulate_stats:
  "samples (accumulate_stats tot m) = of_nat (subtree_total m)"
proof (induction m)
  case (ScopeOutput cs nm smp pr)
  have "sum_list (map (\<lambda>c. samples (accumulate_stats tot c)) cs) = of_nat (sum_list (map subtree_total cs))"
    using ScopeOutput by (induction cs) simp_all
  then show ?case
    by (simp add: accumulate_children_eq)
qed

lemma node_at_map_accumulate_stats:
  "node_at (map (accumulate_stats tot) ts) p = map_option (accumulate_stats tot) (node_at ts p)"
  by (induction ts p rule: node_at.induct) (simp_all add: accumulate_stats_sel)

lemma subtree_total_le_forest_total:
  "m \<in> set ts \<Longrightarrow> subtree_total m \<le> forest_total ts"
  by (induction ts) auto

lemma node_at_subtree_total:
  "node_at ts p = Some m \<Longrightarrow> subtree_total m \<le> forest_total ts"
proof (induction ts p rule: node_at.induct)
  case (1 ts)
  then show ?case by simp
next
  case (2 ts i)
  then show ?case by (auto split: if_splits intro: subtree_total_le_forest_total)
next
  case (3 ts i j p)
  then have i: "i < length ts" and "node_at (scope_outputs (ts ! i)) (j # p) = Some m"
    by (auto split: if_splits)
  with "3.IH" have "subtree_total m \<le> forest_total (scope_outputs (ts ! i))" by simp
  also have "\<dots> \<le> subtree_total (ts ! i)" by (simp add: subtree_total_eq)
  also from i have "\<dots> \<le> forest_total ts"
    by (intro subtree_total_le_forest_total) simp
  finally show ?case .
qed

lemma run_counters:
  "state_invariant s \<Longrightarrow> run hash_fn evs s = Inr s' \<Longrightarrow>
   total_samples s' = total_samples s + of_nat (count_list evs Sample) \<and>
   forest_total (thread_output s') \<le> forest_total (thread_output s) + count_list evs Sample"
proof (induction evs arbitrary: s)
  case Nil
  then show ?case by simp
next
  case (Cons e evs)
  show ?case
  proof (cases "e = Sample")
    case True
    from TakeSample_invariant [OF Cons.prems(1)] obtain s1 where
      s1: "TakeSample s = Inr s1" "state_invariant s1" "total_samples s1 = total_samples s + 1"
        "forest_total (thread_output s1) \<le> forest_total (thread_output s) + 1" by blast
    with Cons.prems(2) True have "run hash_fn evs s1 = Inr s'" by simp
    from Cons.IH [OF s1(2) this] s1 True show ?thesis by simp
  next
    case False
    then obtain nm where e: "step hash_fn e s = Update hash_fn nm s"
      by (cases e) auto
    from Update_invariant [OF Cons.prems(1), of hash_fn nm] obtain s1 where
      s1: "Update hash_fn nm s = Inr s1" "state_invariant s1" "total_samples s1 = total_samples s"
        "forest_total (thread_output s1) = forest_total (thread_output s)" by blast
    with Cons.prems(2) e have "run hash_fn evs s1 = Inr s'" by simp
    from Cons.IH [OF s1(2) this] s1 False show ?thesis by simp
  qed
qed

lemma unat_of_nat_64: "n < 2 ^ 64 \<Longrightarrow> unat (of_nat n :: 64 word) = n"
  by (simp add: unat_of_nat)

lemma reachable_counts_bounded:
  assumes "run hash_fn evs ThreadSamplingData_init = Inr s"
    and "count_list evs Sample < 2 ^ 64"
  shows "forest_total (thread_output s) \<le> unat (total_samples s)"
proof -
  from run_counters [OF state_invariant_init assms(1)]
  have t: "total_samples s = of_nat (count_list evs Sample)"
    and f: "forest_total (thread_output s) \<le> count_list evs Sample"
    by (simp_all add: ThreadSamplingData_init_def)
  from assms(2) have "unat (of_nat (count_list evs Sample) :: 64 word) = count_list evs Sample"
    by (rule unat_of_nat_64)
  with t f show ?thesis by simp
qed

text \<open>Accumulation of a node whose subtree holds fewer than \<open>2 ^ 64\<close> samples.\<close>

lemma unat_samples_accumulate_stats:
  assumes "subtree_total m < 2 ^ 64"
  shows "unat (samples (accumulate_stats tot m)) = subtree_total m"
  using assms by (simp add: samples_accumulate_stats unat_of_nat_64)

lemma sum_list_unat_accumulated:
  assumes "forest_total cs < 2 ^ 64"
  shows "sum_list (map (\<lambda>c. unat (samples (accumulate_stats tot c))) cs) = forest_total cs"
  using assms
proof (induction cs)
  case Nil
  then show ?case by simp
next
  case (Cons c cs)
  then have "subtree_total c < 2 ^ 64" "forest_total cs < 2 ^ 64" by simp_all
  with Cons.IH show ?case
    by (simp add: unat_samples_accumulate_stats)
qed

lemma accumulate_stats_bounded:
  assumes le: "subtree_total m \<le> unat tot" and nz: "tot \<noteq> 0"
  shows "\<exists>q.
           unat (samples (accumulate_stats tot m)) =
             unat (samples m) + sum_list (map (\<lambda>c. unat (samples c)) (scope_outputs (accumulate_stats tot m))) \<and>
           unat (samples (accumulate_stats tot m)) \<le> unat tot \<and>
           cpu_proportion (accumulate_stats tot m) = Fin q \<and>
           q = round_double (round_double (of_nat (unat (samples (accumulate_stats tot m)))) /
                             round_double (of_nat (unat tot))) \<and>
           0 \<le> q \<and> q \<le> 1 \<and>
           (\<forall>c \<in> set (scope_outputs (accumulate_stats tot m)).
              \<exists>qc. cpu_proportion c = Fin qc \<and> qc \<le> q)"
proof -
  let ?cs = "scope_outputs m"
  let ?q = "\<lambda>a. round_double (round_double (of_nat a) / round_double (of_nat (unat tot)))"
  have T: "0 < unat tot" using nz by (simp add: unat_gt_0)
  have "unat tot < 2 ^ LENGTH(64)" by (rule unsigned_less)
  then have bound: "unat tot < 2 ^ 64" by simp
  from le bound have m64: "subtree_total m < 2 ^ 64" by simp
  then have f64: "forest_total ?cs < 2 ^ 64" by (simp add: subtree_total_eq)
  have own: "unat (samples (accumulate_stats tot m)) = subtree_total m"
    by (rule unat_samples_accumulate_stats [OF m64])
  have kids: "sum_list (map (\<lambda>c. unat (samples (accumulate_stats tot c))) ?cs) = forest_total ?cs"
    by (rule sum_list_unat_accumulated [OF f64])
  have 1: "unat (samples (accumulate_stats tot m)) =
      unat (samples m) + sum_list (map (\<lambda>c. unat (samples c)) (scope_outputs (accumulate_stats tot m)))"
    using own kids by (simp add: accumulate_stats_sel(1) comp_def subtree_total_eq)
  have 2: "unat (samples (accumulate_stats tot m)) \<le> unat tot"
    using le by (simp only: own)
  have 3: "cpu_proportion (accumulate_stats tot m) = Fin (?q (unat (samples (accumulate_stats tot m))))"
    using nz by (simp add: accumulate_stats_sel(4) double_div_Fin)
  have 4: "0 \<le> ?q (unat (samples (accumulate_stats tot m)))" by (rule round_double_nonneg)
  have 5: "?q (unat (samples (accumulate_stats tot m))) \<le> 1"
    using 2 T by (rule rounded_quotient_le_1)
  have 6: "\<exists>qc. cpu_proportion c = Fin qc \<and> qc \<le> ?q (unat (samples (accumulate_stats tot m)))"
    if "c \<in> set (scope_outputs (accumulate_stats tot m))" for c
  proof -
    from that obtain c0 where c0: "c0 \<in> set ?cs" and c: "c = accumulate_stats tot c0"
      by (auto simp: accumulate_stats_sel(1))
    from c0 have "subtree_total c0 \<le> forest_total ?cs" by (rule subtree_total_le_forest_total)
    also have "\<dots> \<le> subtree_total m" by (simp add: subtree_total_eq)
    finally have cm: "subtree_total c0 \<le> subtree_total m" .
    with m64 have "subtree_total c0 < 2 ^ 64" by simp
    then have "unat (samples c) = subtree_total c0"
      unfolding c by (rule unat_samples_accumulate_stats)
    with cm own have "unat (samples c) \<le> unat (samples (accumulate_stats tot m))" by simp
    then have "?q (unat (samples c)) \<le> ?q (unat (samples (accumulate_stats tot m)))"
      using T by (rule rounded_quotient_mono)
    moreover have "cpu_proportion c = Fin (?q (unat (samples c)))"
      unfolding c using nz by (simp add: accumulate_stats_sel(4) double_div_Fin)
    ultimately show ?thesis by blast
  qed
  from 1 2 3 4 5 6 show ?thesis by blast
qed

lemma Update_keeps_entries:
  assumes inv: "state_invariant s" and upd: "Update hash_fn nm s = Inr s'"
    and k: "scope_data s k = Some v"
  shows "scope_data s' k = Some v"
proof (cases "current_scope_hash s XOR hash_fn nm = 0")
  case True
  with upd k show ?thesis by (auto simp: Update_zero)
next
  case nz: False
  show ?thesis
  proof (cases "scope_data s (current_scope_hash s XOR hash_fn nm)")
    case (Some q)
    with nz upd k show ?thesis by (auto simp: Update_seen)
  next
    case None
    with k have "k \<noteq> current_scope_hash s XOR hash_fn nm" by auto
    with Update_create [of s hash_fn nm, OF inv nz None] upd k show ?thesis by auto
  qed
qed

lemma run_replicate_Sample:
  "current_scope s = None \<Longrightarrow>
   run hash_fn (replicate n Sample) s = Inr (s\<lparr>total_samples := total_samples s + of_nat n\<rparr>)"
proof (induction n arbitrary: s)
  case 0
  then show ?case by simp
next
  case (Suc n)
  then show ?case by (simp add: TakeSample_def add.assoc add.commute)
qed

lemma xor_eq_0_iff_64: "a XOR b = 0 \<longleftrightarrow> a = (b :: 64 word)"
  by (metis xor_cancel xor.left_neutral xor_self_eq)

section \<open>The claims\<close>

text \<open>
  C1, as amended. Take a state reached from the constructor by events of which fewer than
  \<open>2 ^ 64\<close> are samples, with \<open>total_samples_\<close> not 0. Every node \<open>m\<close> of the tree the
  destructor hands over stands where a node \<open>m0\<close> of the tree before accumulation stood,
  has its name, and its children are the accumulated children of \<open>m0\<close>. Its count is
  the count of \<open>m0\<close> plus the sum of the final counts of its children (in
  \<open>std::uint64_t\<close> arithmetic and, nothing having wrapped, as natural numbers), so it
  is at least that sum, and it is at most \<open>total_samples_\<close>. Its proportion is the
  \<open>double\<close> quotient of that count and \<open>total_samples_\<close>; it lies between 0 and 1 and
  is at least the proportion of each of its children.
\<close>

theorem accumulation_postorder_proportions:
  assumes reach: "run hash_fn evs ThreadSamplingData_init = Inr s"
    and nowrap: "count_list evs Sample < 2 ^ 64"
    and nz: "total_samples s \<noteq> 0"
    and node: "node_at (thread_scope_outputs (accumulate_output tid s)) p = Some m"
  shows "\<exists>m0 q.
           node_at (thread_output s) p = Some m0 \<and>
           name m = name m0 \<and>
           scope_outputs m = map (accumulate_stats (total_samples s)) (scope_outputs m0) \<and>
           samples m = samples m0 + sum_list (map samples (scope_outputs m)) \<and>
           unat (samples m) =
             unat (samples m0) + sum_list (map (\<lambda>c. unat (samples c)) (scope_outputs m)) \<and>
           sum_list (map (\<lambda>c. unat (samples c)) (scope_outputs m)) \<le> unat (samples m) \<and>
           unat (samples m) \<le> unat (total_samples s) \<and>
           cpu_proportion m = double_div (samples m) (total_samples s) \<and>
           cpu_proportion m = Fin q \<and>
           q = round_double (round_double (of_nat (unat (samples m))) /
                             round_double (of_nat (unat (total_samples s)))) \<and>
           0 \<le> q \<and> q \<le> 1 \<and>
           (\<forall>c \<in> set (scope_outputs m). \<exists>qc. cpu_proportion c = Fin qc \<and> qc \<le> q)"
proof -
  let ?tot = "total_samples s"
  from node obtain m0 where m0: "node_at (thread_output s) p = Some m0"
    and m: "m = accumulate_stats ?tot m0"
    by (auto simp: accumulate_output_def node_at_map_accumulate_stats)
  have "subtree_total m0 \<le> forest_total (thread_output s)"
    by (rule node_at_subtree_total [OF m0])
  also have "\<dots> \<le> unat ?tot"
    by (rule reachable_counts_bounded [OF reach nowrap])
  finally have le: "subtree_total m0 \<le> unat ?tot" .
  from accumulate_stats_bounded [OF le nz] obtain q where q:
    "unat (samples m) = unat (samples m0) + sum_list (map (\<lambda>c. unat (samples c)) (scope_outputs m))"
    "unat (samples m) \<le> unat ?tot"
    "cpu_proportion m = Fin q"
    "q = round_double (round_double (of_nat (unat (samples m))) / round_double (of_nat (unat ?tot)))"
    "0 \<le> q" "q \<le> 1"
    "\<forall>c \<in> set (scope_outputs m). \<exists>qc. cpu_proportion c = Fin qc \<and> qc \<le> q"
    unfolding m by blast
  from q(1) have sum: "sum_list (map (\<lambda>c. unat (samples c)) (scope_outputs m)) \<le> unat (samples m)"
    by simp
  have sel: "name m = name m0"
    "scope_outputs m = map (accumulate_stats ?tot) (scope_outputs m0)"
    "samples m = samples m0 + sum_list (map samples (scope_outputs m))"
    "cpu_proportion m = double_div (samples m) ?tot"
    unfolding m by (rule accumulate_stats_sel)+
  from m0 sel q sum show ?thesis by blast
qed

theorem accumulation_postorder_proportions_witness:
  "run example_hash [Enter ''a'', Sample, Enter ''bb'', Sample, Sample, Exit ''bb'', Exit ''a'', Sample]
     ThreadSamplingData_init =
     Inr \<lparr>current_scope_hash = 0, total_samples = 4,
          scope_data = [1 \<mapsto> Some [0], 3 \<mapsto> Some [0, 0]], current_scope = None,
          thread_output = [ScopeOutput [ScopeOutput [] ''bb'' 2 (Fin 0)] ''a'' 1 (Fin 0)]\<rparr> \<and>
   accumulate_output 7
     \<lparr>current_scope_hash = 0, total_samples = 4,
      scope_data = [1 \<mapsto> Some [0], 3 \<mapsto> Some [0, 0]], current_scope = None,
      thread_output = [ScopeOutput [ScopeOutput [] ''bb'' 2 (Fin 0)] ''a'' 1 (Fin 0)]\<rparr> =
     ThreadOutput [ScopeOutput [ScopeOutput [] ''bb'' 2 (Fin (1 / 2))] ''a'' 3 (Fin (3 / 4))] 7 \<and>
   (\<exists>m0 q qc.
      node_at [ScopeOutput [ScopeOutput [] ''bb'' 2 (Fin 0)] ''a'' 1 (Fin 0)] [0] = Some m0 \<and>
      (3 :: 64 word) = samples m0 + sum_list (map samples [ScopeOutput [] ''bb'' 2 (Fin (1 / 2))]) \<and>
      Fin (3 / 4) = Fin q \<and> q \<le> 1 \<and>
      Fin (1 / 2) = Fin qc \<and> qc \<le> q)"
proof -
  let ?s = "\<lparr>current_scope_hash = 0, total_samples = 4,
      scope_data = [1 \<mapsto> Some [0], 3 \<mapsto> Some [0, 0]], current_scope = None,
      thread_output = [ScopeOutput [ScopeOutput [] ''bb'' 2 (Fin 0)] ''a'' 1 (Fin 0)]\<rparr>"
  let ?m = "ScopeOutput [ScopeOutput [] ''bb'' 2 (Fin (1 / 2))] ''a'' 3 (Fin (3 / 4))"
  have r: "run example_hash [Enter ''a'', Sample, Enter ''bb'', Sample, Sample, Exit ''bb'', Exit ''a'', Sample]
     ThreadSamplingData_init = Inr ?s"
    by (simp add: run_eval)
  have c: "count_list [Enter ''a'', Sample, Enter ''bb'', Sample, Sample, Exit ''bb'', Exit ''a'', Sample] Sample
      < 2 ^ 64"
    by simp
  have z: "total_samples ?s \<noteq> 0" by simp
  have a: "accumulate_output 7 ?s = ThreadOutput [?m] 7"
    by (simp add: accumulate_output_def double_div_def)
  then have n: "node_at (thread_scope_outputs (accumulate_output 7 ?s)) [0] = Some ?m"
    by simp
  from accumulation_postorder_proportions [OF r c z n] obtain m0 q where
    f: "node_at (thread_output ?s) [0] = Some m0"
    "samples ?m = samples m0 + sum_list (map samples (scope_outputs ?m))"
    "cpu_proportion ?m = Fin q" "q \<le> 1"
    "\<forall>c \<in> set (scope_outputs ?m). \<exists>qc. cpu_proportion c = Fin qc \<and> qc \<le> q"
    by blast
  from f(5) obtain qc where "Fin (1 / 2) = Fin qc" "qc \<le> q" by auto
  with f have "\<exists>m0 q qc.
      node_at [ScopeOutput [ScopeOutput [] ''bb'' 2 (Fin 0)] ''a'' 1 (Fin 0)] [0] = Some m0 \<and>
      (3 :: 64 word) = samples m0 + sum_list (map samples [ScopeOutput [] ''bb'' 2 (Fin (1 / 2))]) \<and>
      Fin (3 / 4) = Fin q \<and> q \<le> 1 \<and>
      Fin (1 / 2) = Fin qc \<and> qc \<le> q"
    by (intro exI [of _ m0] exI [of _ q] exI [of _ qc]) simp
  with r a show ?thesis by blast
qed

text \<open>
  C1 as stated fails by the rounding of \<open>double\<close>. Inside \<open>p\<close>, the scopes \<open>xx\<close>,
  \<open>yyyy\<close> and \<open>zzzzzzzz\<close> get one sample each, and seven more samples fall outside any
  scope: \<open>total_samples_\<close> is 10 and nothing has wrapped. The three children are emitted
  with the \<open>double\<close> nearest to 1/10, which is above 1/10, and \<open>p\<close> with the \<open>double\<close>
  nearest to 3/10, which is below 3/10: the children's values sum to more than their
  parent's, by \<open>2 ^ -55\<close>.
\<close>

theorem children_proportions_exceed_parent:
  "run example_hash
     [Enter ''p'', Enter ''xx'', Sample, Exit ''xx'', Enter ''yyyy'', Sample, Exit ''yyyy'',
      Enter ''zzzzzzzz'', Sample, Exit ''zzzzzzzz'', Exit ''p'',
      Sample, Sample, Sample, Sample, Sample, Sample, Sample]
     ThreadSamplingData_init =
     Inr \<lparr>current_scope_hash = 0, total_samples = 10,
          scope_data = [1 \<mapsto> Some [0], 3 \<mapsto> Some [0, 0], 5 \<mapsto> Some [0, 1], 9 \<mapsto> Some [0, 2]],
          current_scope = None,
          thread_output =
            [ScopeOutput
               [ScopeOutput [] ''xx'' 1 (Fin 0), ScopeOutput [] ''yyyy'' 1 (Fin 0),
                ScopeOutput [] ''zzzzzzzz'' 1 (Fin 0)] ''p'' 0 (Fin 0)]\<rparr> \<and>
   accumulate_output 0
     \<lparr>current_scope_hash = 0, total_samples = 10,
      scope_data = [1 \<mapsto> Some [0], 3 \<mapsto> Some [0, 0], 5 \<mapsto> Some [0, 1], 9 \<mapsto> Some [0, 2]],
      current_scope = None,
      thread_output =
        [ScopeOutput
           [ScopeOutput [] ''xx'' 1 (Fin 0), ScopeOutput [] ''yyyy'' 1 (Fin 0),
            ScopeOutput [] ''zzzzzzzz'' 1 (Fin 0)] ''p'' 0 (Fin 0)]\<rparr> =
     ThreadOutput
       [ScopeOutput
          [ScopeOutput [] ''xx'' 1 (Fin (7205759403792794 / 2 ^ 56)),
           ScopeOutput [] ''yyyy'' 1 (Fin (7205759403792794 / 2 ^ 56)),
           ScopeOutput [] ''zzzzzzzz'' 1 (Fin (7205759403792794 / 2 ^ 56))]
          ''p'' 3 (Fin (5404319552844595 / 2 ^ 54))] 0 \<and>
   \<not> sum_list [7205759403792794 / 2 ^ 56, 7205759403792794 / 2 ^ 56, 7205759403792794 / 2 ^ 56]
       \<le> (5404319552844595 / 2 ^ 54 :: rat)"
  by (simp add: run_eval accumulate_output_def double_div_def numeral_2_eq_2 [symmetric])

text \<open>
  The bound 1 needs the counters not to have wrapped. Five samples inside \<open>a\<close> followed
  by \<open>2 ^ 64 - 4\<close> samples outside any scope leave \<open>total_samples_\<close> at 1 and the count
  of \<open>a\<close> at 5: the emitted proportion of \<open>a\<close> is 5.
\<close>

proposition proportion_exceeds_one_after_wrap:
  "run example_hash
     (Enter ''a'' # [Sample, Sample, Sample, Sample, Sample] @ Exit ''a'' # replicate (2 ^ 64 - 4) Sample)
     ThreadSamplingData_init =
     Inr \<lparr>current_scope_hash = 0, total_samples = 1, scope_data = [1 \<mapsto> Some [0]],
          current_scope = None, thread_output = [ScopeOutput [] ''a'' 5 (Fin 0)]\<rparr> \<and>
   accumulate_output 0
     \<lparr>current_scope_hash = 0, total_samples = 1, scope_data = [1 \<mapsto> Some [0]],
      current_scope = None, thread_output = [ScopeOutput [] ''a'' 5 (Fin 0)]\<rparr> =
     ThreadOutput [ScopeOutput [] ''a'' 5 (Fin 5)] 0 \<and>
   \<not> (5 :: rat) \<le> 1"
proof -
  let ?s = "\<lparr>current_scope_hash = 0, total_samples = 5, scope_data = [1 \<mapsto> Some [0]],
          current_scope = None, thread_output = [ScopeOutput [] ''a'' 5 (Fin 0)]\<rparr>"
  have 1: "run example_hash (Enter ''a'' # [Sample, Sample, Sample, Sample, Sample] @ [Exit ''a''])
     ThreadSamplingData_init = Inr ?s"
    by (simp add: run_eval)
  have 2: "run example_hash (replicate (2 ^ 64 - 4) Sample) ?s =
      Inr (?s\<lparr>total_samples := total_samples ?s + of_nat (2 ^ 64 - 4)\<rparr>)"
    by (rule run_replicate_Sample) simp
  have 3: "(5 :: 64 word) + of_nat (2 ^ 64 - 4) = 1"
    by simp
  have "run example_hash
     ((Enter ''a'' # [Sample, Sample, Sample, Sample, Sample] @ [Exit ''a'']) @ replicate (2 ^ 64 - 4) Sample)
     ThreadSamplingData_init =
     Inr \<lparr>current_scope_hash = 0, total_samples = 1, scope_data = [1 \<mapsto> Some [0]],
          current_scope = None, thread_output = [ScopeOutput [] ''a'' 5 (Fin 0)]\<rparr>"
    unfolding run_append 1 using 2 3 by simp
  moreover have "accumulate_output 0
     \<lparr>current_scope_hash = 0, total_samples = 1, scope_data = [1 \<mapsto> Some [0]],
      current_scope = None, thread_output = [ScopeOutput [] ''a'' 5 (Fin 0)]\<rparr> =
     ThreadOutput [ScopeOutput [] ''a'' 5 (Fin 5)] 0"
    by (simp add: accumulate_output_def double_div_def)
  ultimately show ?thesis by simp
qed

text \<open>
  C2. The destructor has no guard for \<open>total_samples_ == 0\<close>. A thread that enters and
  leaves a scope without ever being sampled is destroyed with \<open>total_samples_\<close> at 0; the
  accumulation divides 0 by 0 and the tree handed to the receiver carries \<open>NaN\<close>, not 0,
  as the proportion. Emission is not skipped.
\<close>

theorem destructor_divides_by_zero_when_never_sampled:
  "run example_hash [Enter ''a'', Exit ''a''] ThreadSamplingData_init =
     Inr \<lparr>current_scope_hash = 0, total_samples = 0, scope_data = [1 \<mapsto> Some [0]],
          current_scope = None, thread_output = [ScopeOutput [] ''a'' 0 (Fin 0)]\<rparr> \<and>
   ThreadSamplingData_destroy 0 (Init (Some (OutputReceiver [])) Ext_init)
     \<lparr>current_scope_hash = 0, total_samples = 0, scope_data = [1 \<mapsto> Some [0]],
      current_scope = None, thread_output = [ScopeOutput [] ''a'' 0 (Fin 0)]\<rparr> =
     Inr \<lparr>keep_sampling = True, sampling_worker = Some (Thread True),
          receiver = Some (OutputReceiver [ThreadOutput [ScopeOutput [] ''a'' 0 NaN] 0])\<rparr>"
  by (simp add: run_eval ThreadSamplingData_destroy_def accumulate_output_def double_div_def
      Init_def Ext_init_def HandleOutput_def)

text \<open>
  The same for every state with \<open>total_samples_\<close> at 0: no node of the tree the destructor
  hands over has a finite proportion, so none has the proportion 0.
\<close>

proposition never_sampled_no_finite_proportion:
  assumes "total_samples s = 0"
    and "node_at (thread_scope_outputs (accumulate_output tid s)) p = Some m"
  shows "cpu_proportion m = NaN \<or> cpu_proportion m = PosInf"
proof -
  from assms(2) obtain m0 where "m = accumulate_stats (total_samples s) m0"
    by (auto simp: accumulate_output_def node_at_map_accumulate_stats)
  with assms(1) show ?thesis
    by (simp add: accumulate_stats_sel(4) double_div_def)
qed

text \<open>
  C3. From a state reached from the constructor in which the thread is outside any scope
  (path id 0), a sequence of scope entries and exits in stack order that ends outside any
  scope, with samples anywhere in between, runs without error and ends with the path id 0
  and \<open>current_scope_\<close> null; and so does every prefix of it that is itself complete,
  that is, the state after each complete pair.
\<close>

theorem balanced_scopes_return_to_root:
  assumes reach: "run hash_fn pre ThreadSamplingData_init = Inr s0"
    and root: "current_scope_hash s0 = 0"
    and nested: "well_nested evs []"
  shows "(\<exists>s. run hash_fn evs s0 = Inr s \<and> current_scope_hash s = 0 \<and> current_scope s = None) \<and>
         (\<forall>k. well_nested (take k evs) [] \<longrightarrow>
            (\<exists>s. run hash_fn (take k evs) s0 = Inr s \<and>
                 current_scope_hash s = 0 \<and> current_scope s = None))"
proof -
  from reach have inv: "state_invariant s0" by (rule reachable_invariant)
  have "\<exists>s. run hash_fn es s0 = Inr s \<and> current_scope_hash s = 0 \<and> current_scope s = None"
    if "well_nested es []" for es
  proof -
    from run_well_nested [OF inv that, of hash_fn] root obtain s where
      "run hash_fn es s0 = Inr s" "state_invariant s" "current_scope_hash s = 0" by auto
    then show ?thesis by (auto simp: state_invariant_def)
  qed
  with nested show ?thesis by blast
qed

theorem balanced_scopes_return_to_root_witness:
  "run example_hash [Enter ''ccc'', Exit ''ccc''] ThreadSamplingData_init =
     Inr \<lparr>current_scope_hash = 0, total_samples = 0, scope_data = [3 \<mapsto> Some [0]],
          current_scope = None, thread_output = [ScopeOutput [] ''ccc'' 0 (Fin 0)]\<rparr> \<and>
   well_nested [Enter ''a'', Sample, Enter ''bb'', Exit ''bb'', Exit ''a'', Enter ''a'', Exit ''a''] [] \<and>
   (\<exists>s. run example_hash [Enter ''a'', Sample, Enter ''bb'', Exit ''bb'', Exit ''a'', Enter ''a'', Exit ''a'']
          \<lparr>current_scope_hash = 0, total_samples = 0, scope_data = [3 \<mapsto> Some [0]],
           current_scope = None, thread_output = [ScopeOutput [] ''ccc'' 0 (Fin 0)]\<rparr> = Inr s \<and>
        current_scope_hash s = 0 \<and> current_scope s = None) \<and>
   (\<exists>s. run example_hash [Enter ''a'', Sample, Enter ''bb'', Exit ''bb'', Exit ''a'']
          \<lparr>current_scope_hash = 0, total_samples = 0, scope_data = [3 \<mapsto> Some [0]],
           current_scope = None, thread_output = [ScopeOutput [] ''ccc'' 0 (Fin 0)]\<rparr> = Inr s \<and>
        current_scope_hash s = 0 \<and> current_scope s = None)"
proof -
  let ?s0 = "\<lparr>current_scope_hash = 0, total_samples = 0, scope_data = [3 \<mapsto> Some [0]],
          current_scope = None, thread_output = [ScopeOutput [] ''ccc'' 0 (Fin 0)]\<rparr>"
  let ?evs = "[Enter ''a'', Sample, Enter ''bb'', Exit ''bb'', Exit ''a'', Enter ''a'', Exit ''a'']"
  have a: "run example_hash [Enter ''ccc'', Exit ''ccc''] ThreadSamplingData_init = Inr ?s0"
    by (simp add: run_eval)
  have b: "current_scope_hash ?s0 = 0" by simp
  have c: "well_nested ?evs []" by simp
  have d: "well_nested (take 5 ?evs) []" by simp
  have e: "take 5 ?evs = [Enter ''a'', Sample, Enter ''bb'', Exit ''bb'', Exit ''a'']" by simp
  note t = balanced_scopes_return_to_root [OF a b c]
  from t have "\<exists>s. run example_hash ?evs ?s0 = Inr s \<and> current_scope_hash s = 0 \<and> current_scope s = None"
    by blast
  moreover from t d have "\<exists>s. run example_hash (take 5 ?evs) ?s0 = Inr s \<and>
      current_scope_hash s = 0 \<and> current_scope s = None"
    by blast
  ultimately show ?thesis using a c unfolding e by blast
qed

text \<open>
  C4. In a state reached from the constructor, when the new path id is non-zero and not yet
  in the table, \<open>Update\<close> finds the parent id by XOR-ing the name's hash in again (which
  gives back the previous path id), takes as parent the root when that id is 0 and the
  table entry otherwise, appends a node with the given name, no samples and no children at
  the end of the parent's children, records the new id in the table and makes the node current.
  Every node that existed keeps its name, count and proportion, and its number of
  children unless it is the parent.
\<close>

theorem Update_creates_node:
  assumes reach: "run hash_fn evs ThreadSamplingData_init = Inr s"
    and nz: "current_scope_hash s XOR hash_fn nm \<noteq> 0"
    and new: "scope_data s (current_scope_hash s XOR hash_fn nm) = None"
  shows "\<exists>parent cs s'.
           (current_scope_hash s XOR hash_fn nm) XOR hash_fn nm = current_scope_hash s \<and>
           (if current_scope_hash s = 0 then parent = []
            else scope_data s (current_scope_hash s) = Some (Some parent)) \<and>
           children_at (thread_output s) parent = Some cs \<and>
           Update hash_fn nm s = Inr s' \<and>
           children_at (thread_output s') parent = Some (cs @ [ScopeOutput [] nm 0 (Fin 0)]) \<and>
           node_at (thread_output s') (parent @ [length cs]) = Some (ScopeOutput [] nm 0 (Fin 0)) \<and>
           scope_data s' =
             (scope_data s)(current_scope_hash s XOR hash_fn nm \<mapsto> Some (parent @ [length cs])) \<and>
           current_scope s' = Some (parent @ [length cs]) \<and>
           current_scope_hash s' = current_scope_hash s XOR hash_fn nm \<and>
           total_samples s' = total_samples s \<and>
           (\<forall>q m. node_at (thread_output s) q = Some m \<longrightarrow>
              (\<exists>m'. node_at (thread_output s') q = Some m' \<and> name m' = name m \<and>
                 samples m' = samples m \<and> cpu_proportion m' = cpu_proportion m \<and>
                 length (scope_outputs m') =
                   (if q = parent then Suc (length (scope_outputs m)) else length (scope_outputs m))))"
proof -
  let ?pp = "case current_scope s of None \<Rightarrow> [] | Some p \<Rightarrow> p"
  let ?h = "current_scope_hash s XOR hash_fn nm"
  from reach have inv: "state_invariant s" by (rule reachable_invariant)
  from Update_create [of s hash_fn nm, OF inv nz new] obtain cs out' where
    cs: "children_at (thread_output s) ?pp = Some cs"
    and out': "push_back_at (thread_output s) ?pp (ScopeOutput [] nm 0 (Fin 0)) = Some out'"
    and upd: "Update hash_fn nm s =
           Inr (s\<lparr>current_scope_hash := ?h, thread_output := out',
                  current_scope := Some (?pp @ [length cs]),
                  scope_data := (scope_data s)(?h \<mapsto> Some (?pp @ [length cs]))\<rparr>)"
    by blast
  have par: "if current_scope_hash s = 0 then ?pp = []
             else scope_data s (current_scope_hash s) = Some (Some ?pp)"
  proof (cases "current_scope_hash s = 0")
    case True
    with inv show ?thesis by (simp add: state_invariant_def)
  next
    case False
    from state_invariant_current [OF inv False] False show ?thesis by auto
  qed
  have kids: "children_at out' ?pp = Some (cs @ [ScopeOutput [] nm 0 (Fin 0)])"
    by (rule children_at_push_back_at [OF out' cs])
  then have node: "node_at out' (?pp @ [length cs]) = Some (ScopeOutput [] nm 0 (Fin 0))"
    by (simp add: node_at_snoc)
  have rest: "\<forall>q m. node_at (thread_output s) q = Some m \<longrightarrow>
              (\<exists>m'. node_at out' q = Some m' \<and> name m' = name m \<and>
                 samples m' = samples m \<and> cpu_proportion m' = cpu_proportion m \<and>
                 length (scope_outputs m') =
                   (if q = ?pp then Suc (length (scope_outputs m)) else length (scope_outputs m)))"
    using node_at_push_back_at [OF out'] by blast
  show ?thesis
    apply (rule exI [of _ ?pp])
    apply (rule exI [of _ cs])
    apply (rule exI)
    apply (intro conjI)
              apply (rule xor_cancel)
             apply (rule par)
            apply (rule cs)
           apply (rule upd)
    using kids node rest by simp_all
qed

theorem Update_creates_node_witness:
  "run example_hash [Enter ''a''] ThreadSamplingData_init =
     Inr \<lparr>current_scope_hash = 1, total_samples = 0, scope_data = [1 \<mapsto> Some [0]],
          current_scope = Some [0], thread_output = [ScopeOutput [] ''a'' 0 (Fin 0)]\<rparr> \<and>
   Update example_hash ''bb''
     \<lparr>current_scope_hash = 1, total_samples = 0, scope_data = [1 \<mapsto> Some [0]],
      current_scope = Some [0], thread_output = [ScopeOutput [] ''a'' 0 (Fin 0)]\<rparr> =
     Inr \<lparr>current_scope_hash = 3, total_samples = 0,
          scope_data = [1 \<mapsto> Some [0], 3 \<mapsto> Some [0, 0]],
          current_scope = Some [0, 0],
          thread_output = [ScopeOutput [ScopeOutput [] ''bb'' 0 (Fin 0)] ''a'' 0 (Fin 0)]\<rparr>"
proof -
  let ?s = "\<lparr>current_scope_hash = 1, total_samples = 0, scope_data = [1 \<mapsto> Some [0]],
      current_scope = Some [0], thread_output = [ScopeOutput [] ''a'' 0 (Fin 0)]\<rparr>"
  have r: "run example_hash [Enter ''a''] ThreadSamplingData_init = Inr ?s"
    by (simp add: run_eval)
  have nz: "current_scope_hash ?s XOR example_hash ''bb'' \<noteq> 0"
    by (simp add: example_hash_def)
  have new: "scope_data ?s (current_scope_hash ?s XOR example_hash ''bb'') = None"
    by (simp add: example_hash_def)
  from Update_creates_node [OF r nz new] obtain parent cs s' where
    p: "scope_data ?s (current_scope_hash ?s) = Some (Some parent)"
    and c: "children_at (thread_output ?s) parent = Some cs"
    and u: "Update example_hash ''bb'' ?s = Inr s'"
    by (auto split: if_splits)
  have "Update example_hash ''bb'' ?s =
     Inr \<lparr>current_scope_hash = 3, total_samples = 0,
          scope_data = [1 \<mapsto> Some [0], 3 \<mapsto> Some [0, 0]],
          current_scope = Some [0, 0],
          thread_output = [ScopeOutput [ScopeOutput [] ''bb'' 0 (Fin 0)] ''a'' 0 (Fin 0)]\<rparr>"
    using u by (simp add: run_eval)
  with r show ?thesis by simp
qed

text \<open>
  C5. In a state reached from the constructor, \<open>TakeSample\<close> succeeds, adds one to
  \<open>total_samples_\<close> whatever the current scope is, and adds one to the count of the node
  \<open>current_scope_\<close> points to exactly when that pointer is not null: with a null pointer
  the tree is left as it is; otherwise the pointer designates a node, that node's count
  grows by one and every other node keeps its count. Names, proportions, the shape of the
  tree, the path id, the table and the current scope do not change. The additions are
  those of \<open>std::uint64_t\<close>.
\<close>

theorem TakeSample_counts_one_sample:
  assumes reach: "run hash_fn evs ThreadSamplingData_init = Inr s"
  shows "\<exists>s'. TakeSample s = Inr s' \<and>
           total_samples s' = total_samples s + 1 \<and>
           current_scope_hash s' = current_scope_hash s \<and>
           current_scope s' = current_scope s \<and>
           scope_data s' = scope_data s \<and>
           (current_scope s = None \<longrightarrow> thread_output s' = thread_output s) \<and>
           (\<forall>p. current_scope s = Some p \<longrightarrow> node_at (thread_output s) p \<noteq> None) \<and>
           (\<forall>q m. node_at (thread_output s) q = Some m \<longrightarrow>
              (\<exists>m'. node_at (thread_output s') q = Some m' \<and>
                 samples m' = (if current_scope s = Some q then samples m + 1 else samples m) \<and>
                 name m' = name m \<and> cpu_proportion m' = cpu_proportion m \<and>
                 length (scope_outputs m') = length (scope_outputs m))) \<and>
           (\<forall>q. node_at (thread_output s) q = None \<longrightarrow> node_at (thread_output s') q = None)"
proof (cases "current_scope s")
  case None
  then show ?thesis by (simp add: TakeSample_def)
next
  case (Some p)
  from reach have inv: "state_invariant s" by (rule reachable_invariant)
  with Some have nz: "current_scope_hash s \<noteq> 0"
    by (auto simp: state_invariant_def)
  from state_invariant_current [OF inv nz] Some obtain m where
    m: "node_at (thread_output s) p = Some m" by auto
  from increment_samples_at_defined [OF m] obtain out' where
    out': "increment_samples_at (thread_output s) p = Some out'" by blast
  have upd: "TakeSample s = Inr (s\<lparr>thread_output := out', total_samples := total_samples s + 1\<rparr>)"
    using Some out' by (simp add: TakeSample_def)
  have old: "\<forall>q m. node_at (thread_output s) q = Some m \<longrightarrow>
              (\<exists>m'. node_at out' q = Some m' \<and>
                 samples m' = (if current_scope s = Some q then samples m + 1 else samples m) \<and>
                 name m' = name m \<and> cpu_proportion m' = cpu_proportion m \<and>
                 length (scope_outputs m') = length (scope_outputs m))"
  proof (intro allI impI)
    fix q n
    assume "node_at (thread_output s) q = Some n"
    from node_at_increment_samples_at [OF out' this] Some
    show "\<exists>m'. node_at out' q = Some m' \<and>
                 samples m' = (if current_scope s = Some q then samples n + 1 else samples n) \<and>
                 name m' = name n \<and> cpu_proportion m' = cpu_proportion n \<and>
                 length (scope_outputs m') = length (scope_outputs n)"
      by auto
  qed
  have none: "\<forall>q. node_at (thread_output s) q = None \<longrightarrow> node_at out' q = None"
    using node_at_increment_samples_at_None [OF out'] by blast
  from upd Some m old none show ?thesis by simp
qed

theorem TakeSample_counts_one_sample_witness:
  "run example_hash [Enter ''a'', Enter ''bb'', Exit ''bb''] ThreadSamplingData_init =
     Inr \<lparr>current_scope_hash = 1, total_samples = 0,
          scope_data = [1 \<mapsto> Some [0], 3 \<mapsto> Some [0, 0]], current_scope = Some [0],
          thread_output = [ScopeOutput [ScopeOutput [] ''bb'' 0 (Fin 0)] ''a'' 0 (Fin 0)]\<rparr> \<and>
   (\<exists>s' a b.
      TakeSample
        \<lparr>current_scope_hash = 1, total_samples = 0,
         scope_data = [1 \<mapsto> Some [0], 3 \<mapsto> Some [0, 0]], current_scope = Some [0],
         thread_output = [ScopeOutput [ScopeOutput [] ''bb'' 0 (Fin 0)] ''a'' 0 (Fin 0)]\<rparr> = Inr s' \<and>
      total_samples s' = 1 \<and>
      node_at (thread_output s') [0] = Some a \<and> samples a = 1 \<and>
      node_at (thread_output s') [0, 0] = Some b \<and> samples b = 0)"
proof -
  let ?s = "\<lparr>current_scope_hash = 1, total_samples = 0,
      scope_data = [1 \<mapsto> Some [0], 3 \<mapsto> Some [0, 0]], current_scope = Some [0],
      thread_output = [ScopeOutput [ScopeOutput [] ''bb'' 0 (Fin 0)] ''a'' 0 (Fin 0)]\<rparr>"
  have r: "run example_hash [Enter ''a'', Enter ''bb'', Exit ''bb''] ThreadSamplingData_init = Inr ?s"
    by (simp add: run_eval)
  from TakeSample_counts_one_sample [OF r] obtain s' where
    u: "TakeSample ?s = Inr s'" and t: "total_samples s' = total_samples ?s + 1"
    and n: "\<forall>q m. node_at (thread_output ?s) q = Some m \<longrightarrow>
              (\<exists>m'. node_at (thread_output s') q = Some m' \<and>
                 samples m' = (if current_scope ?s = Some q then samples m + 1 else samples m) \<and>
                 name m' = name m \<and> cpu_proportion m' = cpu_proportion m \<and>
                 length (scope_outputs m') = length (scope_outputs m))"
    by blast
  from n [rule_format, of "[0]"] obtain a where
    a: "node_at (thread_output s') [0] = Some a" "samples a = 1" by auto
  from n [rule_format, of "[0, 0]"] obtain b where
    b: "node_at (thread_output s') [0, 0] = Some b" "samples b = 0" by auto
  from t have "total_samples s' = 1" by simp
  with r u a b show ?thesis by blast
qed

text \<open>
  C6, as amended. Re-entering the name of the innermost active scope (direct recursion):
  if a state \<open>s\<close> reached from the constructor enters \<open>nm\<close> and then enters \<open>nm\<close> again,
  the second \<open>Update\<close> puts the path id and the current scope back to what they were in
  \<open>s\<close>, before \<open>nm\<close> was entered, and creates nothing: the tree and the table are those the
  first call left.
\<close>

theorem reentering_innermost_scope_cancels:
  assumes reach: "run hash_fn evs ThreadSamplingData_init = Inr s"
  shows "\<exists>s1 s2. Update hash_fn nm s = Inr s1 \<and> Update hash_fn nm s1 = Inr s2 \<and>
           current_scope_hash s2 = current_scope_hash s \<and>
           current_scope s2 = current_scope s \<and>
           thread_output s2 = thread_output s1 \<and>
           scope_data s2 = scope_data s1"
proof -
  from reach have inv: "state_invariant s" by (rule reachable_invariant)
  from Update_invariant [OF inv, of hash_fn nm] obtain s1 where
    s1: "Update hash_fn nm s = Inr s1" "state_invariant s1"
      "current_scope_hash s1 = current_scope_hash s XOR hash_fn nm" by blast
  have restored: "current_scope_hash s1 XOR hash_fn nm = current_scope_hash s"
    by (simp add: s1(3) xor_cancel)
  show ?thesis
  proof (cases "current_scope_hash s = 0")
    case True
    with inv have "current_scope s = None" by (simp add: state_invariant_def)
    with True restored s1(1) show ?thesis
      by (simp add: Update_zero)
  next
    case False
    from inv False have "scope_data s (current_scope_hash s) = Some (current_scope s)"
      by (simp add: state_invariant_def)
    from Update_keeps_entries [OF inv s1(1) this]
    have "scope_data s1 (current_scope_hash s1 XOR hash_fn nm) = Some (current_scope s)"
      by (simp add: restored)
    with False restored s1(1) show ?thesis
      by (simp add: Update_seen)
  qed
qed

theorem reentering_innermost_scope_cancels_witness:
  "run example_hash [Enter ''a''] ThreadSamplingData_init =
     Inr \<lparr>current_scope_hash = 1, total_samples = 0, scope_data = [1 \<mapsto> Some [0]],
          current_scope = Some [0], thread_output = [ScopeOutput [] ''a'' 0 (Fin 0)]\<rparr> \<and>
   (\<exists>s1 s2.
      Update example_hash ''bb''
        \<lparr>current_scope_hash = 1, total_samples = 0, scope_data = [1 \<mapsto> Some [0]],
         current_scope = Some [0], thread_output = [ScopeOutput [] ''a'' 0 (Fin 0)]\<rparr> = Inr s1 \<and>
      Update example_hash ''bb'' s1 = Inr s2 \<and>
      current_scope_hash s2 = 1 \<and> current_scope s2 = Some [0] \<and>
      thread_output s2 = thread_output s1 \<and> scope_data s2 = scope_data s1)"
proof -
  let ?s = "\<lparr>current_scope_hash = 1, total_samples = 0, scope_data = [1 \<mapsto> Some [0]],
          current_scope = Some [0], thread_output = [ScopeOutput [] ''a'' 0 (Fin 0)]\<rparr>"
  have r: "run example_hash [Enter ''a''] ThreadSamplingData_init = Inr ?s"
    by (simp add: run_eval)
  from reentering_innermost_scope_cancels [OF r, of "''bb''"] r show ?thesis
    by simp
qed

text \<open>
  C6 as stated fails for indirect recursion. With \<open>a\<close> and \<open>bb\<close> active, entering \<open>a\<close>
  again gives the path id \<open>hash bb\<close>, which is neither 0 nor the id of an active scope,
  and a third-level node named \<open>a\<close> is created under \<open>bb\<close>.
\<close>

theorem indirect_recursion_creates_deeper_node:
  "run example_hash [Enter ''a'', Enter ''bb''] ThreadSamplingData_init =
     Inr \<lparr>current_scope_hash = 3, total_samples = 0,
          scope_data = [1 \<mapsto> Some [0], 3 \<mapsto> Some [0, 0]],
          current_scope = Some [0, 0],
          thread_output = [ScopeOutput [ScopeOutput [] ''bb'' 0 (Fin 0)] ''a'' 0 (Fin 0)]\<rparr> \<and>
   run example_hash [Enter ''a'', Enter ''bb'', Enter ''a''] ThreadSamplingData_init =
     Inr \<lparr>current_scope_hash = 2, total_samples = 0,
          scope_data = [1 \<mapsto> Some [0], 3 \<mapsto> Some [0, 0], 2 \<mapsto> Some [0, 0, 0]],
          current_scope = Some [0, 0, 0],
          thread_output =
            [ScopeOutput [ScopeOutput [ScopeOutput [] ''a'' 0 (Fin 0)] ''bb'' 0 (Fin 0)] ''a'' 0 (Fin 0)]\<rparr>"
  by (simp add: run_eval)

text \<open>
  Indirect recursion, for any hash function that gives two names different non-zero
  hashes: with \<open>a\<close> and \<open>b\<close> active, entering \<open>a\<close> again creates a third-level node.
\<close>

proposition indirect_recursion_any_hash:
  assumes a: "hash_fn a \<noteq> 0" and b: "hash_fn b \<noteq> 0" and ab: "hash_fn a \<noteq> hash_fn b"
  shows "run hash_fn [Enter a, Enter b, Enter a] ThreadSamplingData_init =
     Inr \<lparr>current_scope_hash = hash_fn b, total_samples = 0,
          scope_data = [hash_fn a \<mapsto> Some [0], hash_fn a XOR hash_fn b \<mapsto> Some [0, 0],
                        hash_fn b \<mapsto> Some [0, 0, 0]],
          current_scope = Some [0, 0, 0],
          thread_output =
            [ScopeOutput [ScopeOutput [ScopeOutput [] a 0 (Fin 0)] b 0 (Fin 0)] a 0 (Fin 0)]\<rparr>"
proof -
  have 1: "hash_fn a XOR hash_fn b \<noteq> 0" using ab by (simp add: xor_eq_0_iff_64)
  have 2: "hash_fn a XOR hash_fn b \<noteq> hash_fn a"
    using b by (metis xor_cancel xor_self_eq xor.commute)
  have 3: "(hash_fn a XOR hash_fn b) XOR hash_fn a = hash_fn b"
    by (metis xor_cancel xor.commute)
  have 4: "hash_fn b \<noteq> hash_fn a XOR hash_fn b"
    using a by (metis xor_cancel xor_self_eq xor.commute)
  have 5: "hash_fn b XOR hash_fn a = hash_fn a XOR hash_fn b" by (rule xor.commute)
  have 6: "(hash_fn a XOR hash_fn b) XOR hash_fn b = hash_fn a" by (rule xor_cancel)
  from a b ab 1 2 3 4 5 6 ab [symmetric] 2 [symmetric] show ?thesis
    by (simp add: Update_def ThreadSamplingData_init_def Let_def set_scope_outputs_def)
qed

text \<open>
  C7. Every sequence of \<open>Update\<close> and \<open>TakeSample\<close> calls on a freshly constructed state
  runs without error, and in the state it reaches \<open>current_scope_hash_\<close> is 0 if and only
  if \<open>current_scope_\<close> is null.
\<close>

theorem path_id_zero_iff_no_current_scope:
  "\<exists>s. run hash_fn evs ThreadSamplingData_init = Inr s \<and>
        (current_scope_hash s = 0 \<longleftrightarrow> current_scope s = None)"
proof -
  from run_invariant [OF state_invariant_init, of hash_fn evs] obtain s where
    s: "run hash_fn evs ThreadSamplingData_init = Inr s" "state_invariant s" by blast
  have "current_scope s \<noteq> None" if "current_scope_hash s \<noteq> 0"
    using state_invariant_current [OF s(2) that] by auto
  moreover have "current_scope s = None" if "current_scope_hash s = 0"
    using s(2) that by (simp add: state_invariant_def)
  ultimately have "current_scope_hash s = 0 \<longleftrightarrow> current_scope s = None" by blast
  with s(1) show ?thesis by (intro exI conjI)
qed

theorem path_id_zero_iff_no_current_scope_witness:
  "(\<exists>s. run example_hash [Enter ''a'', Sample, Enter ''bb'', Exit ''a''] ThreadSamplingData_init = Inr s \<and>
        (current_scope_hash s = 0) = (current_scope s = None)) \<and>
   run example_hash [Enter ''a'', Sample, Enter ''bb'', Exit ''a''] ThreadSamplingData_init =
     Inr \<lparr>current_scope_hash = 2, total_samples = 1,
          scope_data = [1 \<mapsto> Some [0], 3 \<mapsto> Some [0, 0], 2 \<mapsto> Some [0, 0, 0]],
          current_scope = Some [0, 0, 0],
          thread_output =
            [ScopeOutput [ScopeOutput [ScopeOutput [] ''a'' 0 (Fin 0)] ''bb'' 0 (Fin 0)] ''a'' 1 (Fin 0)]\<rparr>"
proof -
  have "run example_hash [Enter ''a'', Sample, Enter ''bb'', Exit ''a''] ThreadSamplingData_init =
     Inr \<lparr>current_scope_hash = 2, total_samples = 1,
          scope_data = [1 \<mapsto> Some [0], 3 \<mapsto> Some [0, 0], 2 \<mapsto> Some [0, 0, 0]],
          current_scope = Some [0, 0, 0],
          thread_output =
            [ScopeOutput [ScopeOutput [ScopeOutput [] ''a'' 0 (Fin 0)] ''bb'' 0 (Fin 0)] ''a'' 1 (Fin 0)]\<rparr>"
    by (simp add: run_eval)
  with path_id_zero_iff_no_current_scope
    [of example_hash "[Enter ''a'', Sample, Enter ''bb'', Exit ''a'']"]
  show ?thesis by blast
qed

text \<open>
  C8. \<open>Stop\<close> before any \<open>Init\<close> returns normally and changes nothing; so does \<open>Stop\<close> in
  any state with no worker or with \<open>keep_sampling\<close> already false. After a \<open>Stop\<close> that
  returned normally, a second \<open>Stop\<close> returns normally and changes nothing: it does not
  reach \<open>join\<close>, so the worker is joined at most once. \<open>Init\<close> in a state that has a
  worker changes nothing, in particular a second \<open>Init\<close> after the first.
\<close>

theorem Stop_and_Init_are_idempotent:
  "Stop Ext_init = Inr Ext_init \<and>
   (sampling_worker ext = None \<longrightarrow> Stop ext = Inr ext) \<and>
   (\<not> keep_sampling ext \<longrightarrow> Stop ext = Inr ext) \<and>
   (\<forall>ext'. Stop ext = Inr ext' \<longrightarrow> Stop ext' = Inr ext') \<and>
   (\<exists>ext'. Stop (Init r Ext_init) = Inr ext' \<and> sampling_worker ext' = Some (Thread False) \<and>
      Stop ext' = Inr ext') \<and>
   (sampling_worker ext \<noteq> None \<longrightarrow> Init r ext = ext) \<and>
   Init r' (Init r Ext_init) = Init r Ext_init"
proof -
  have 1: "Stop Ext_init = Inr Ext_init"
    by (simp add: Stop_def Ext_init_def)
  have 2: "sampling_worker ext = None \<longrightarrow> Stop ext = Inr ext"
    by (simp add: Stop_def)
  have 3: "\<not> keep_sampling ext \<longrightarrow> Stop ext = Inr ext"
    by (simp add: Stop_def)
  have 4: "\<forall>ext'. Stop ext = Inr ext' \<longrightarrow> Stop ext' = Inr ext'"
    by (auto simp: Stop_def split: if_splits option.splits)
  have 5: "\<exists>ext'. Stop (Init r Ext_init) = Inr ext' \<and> sampling_worker ext' = Some (Thread False) \<and>
      Stop ext' = Inr ext'"
    by (simp add: Stop_def Init_def Ext_init_def)
  have 6: "sampling_worker ext \<noteq> None \<longrightarrow> Init r ext = ext"
    by (simp add: Init_def)
  have 7: "Init r' (Init r Ext_init) = Init r Ext_init"
    by (simp add: Init_def Ext_init_def)
  from 1 2 3 4 5 6 7 show ?thesis by blast
qed

theorem Stop_and_Init_are_idempotent_witness:
  "Stop Ext_init = Inr Ext_init \<and>
   Stop (Init (Some (OutputReceiver [])) Ext_init) =
     Inr \<lparr>keep_sampling = False, sampling_worker = Some (Thread False),
          receiver = Some (OutputReceiver [])\<rparr> \<and>
   Stop \<lparr>keep_sampling = False, sampling_worker = Some (Thread False),
         receiver = Some (OutputReceiver [])\<rparr> =
     Inr \<lparr>keep_sampling = False, sampling_worker = Some (Thread False),
          receiver = Some (OutputReceiver [])\<rparr> \<and>
   Init None (Init (Some (OutputReceiver [])) Ext_init) =
     \<lparr>keep_sampling = True, sampling_worker = Some (Thread True),
      receiver = Some (OutputReceiver [])\<rparr>"
proof -
  let ?e = "\<lparr>keep_sampling = False, sampling_worker = Some (Thread False),
          receiver = Some (OutputReceiver [])\<rparr>"
  have s: "Stop (Init (Some (OutputReceiver [])) Ext_init) = Inr ?e"
    by (simp add: Stop_def Init_def Ext_init_def)
  note t = Stop_and_Init_are_idempotent
    [of "Init (Some (OutputReceiver [])) Ext_init" "Some (OutputReceiver [])" None]
  from t have "Stop Ext_init = Inr Ext_init" by blast
  moreover from t s have "Stop ?e = Inr ?e" by blast
  moreover from t have "Init None (Init (Some (OutputReceiver [])) Ext_init) =
      Init (Some (OutputReceiver [])) Ext_init" by blast
  then have "Init None (Init (Some (OutputReceiver [])) Ext_init) =
     \<lparr>keep_sampling = True, sampling_worker = Some (Thread True),
      receiver = Some (OutputReceiver [])\<rparr>"
    by (simp add: Init_def Ext_init_def)
  ultimately show ?thesis using s by blast
qed

text \<open>
  C9. The destructor has one path: it accumulates and then calls \<open>HandleOutput\<close> through
  \<open>Ext::receiver\<close>. With a receiver installed the receiver gets exactly one more output,
  the accumulated tree, whatever \<open>total_samples_\<close> is; with none installed, as before any
  \<open>Init\<close> or after an \<open>Init\<close> given a null pointer, the call dereferences a null pointer.
  \<open>Init\<close> with a receiver, in the initial state, installs it.
\<close>

theorem destructor_emits_exactly_once:
  "(\<forall>r. receiver ext = Some r \<longrightarrow>
      ThreadSamplingData_destroy tid ext s =
        Inr (ext\<lparr>receiver := Some (OutputReceiver (handled r @ [accumulate_output tid s]))\<rparr>)) \<and>
   (receiver ext = None \<longrightarrow> ThreadSamplingData_destroy tid ext s = Inl NullDereference) \<and>
   ThreadSamplingData_destroy tid Ext_init s = Inl NullDereference \<and>
   ThreadSamplingData_destroy tid (Init None Ext_init) s = Inl NullDereference \<and>
   receiver (Init (Some r0) Ext_init) = Some r0"
  by (simp add: ThreadSamplingData_destroy_def HandleOutput_def Init_def Ext_init_def)

theorem destructor_emits_exactly_once_witness:
  "receiver (Init (Some (OutputReceiver [])) Ext_init) = Some (OutputReceiver []) \<and>
   ThreadSamplingData_destroy 7 (Init (Some (OutputReceiver [])) Ext_init) ThreadSamplingData_init =
     Inr ((Init (Some (OutputReceiver [])) Ext_init)\<lparr>receiver := Some (OutputReceiver [ThreadOutput [] 7])\<rparr>) \<and>
   ThreadSamplingData_destroy 7 Ext_init ThreadSamplingData_init = Inl NullDereference"
proof -
  note t = destructor_emits_exactly_once
    [of "Init (Some (OutputReceiver [])) Ext_init" 7 ThreadSamplingData_init "OutputReceiver []"]
  have a: "accumulate_output 7 ThreadSamplingData_init = ThreadOutput [] 7"
    by (simp add: accumulate_output_def ThreadSamplingData_init_def)
  from t have r: "receiver (Init (Some (OutputReceiver [])) Ext_init) = Some (OutputReceiver [])"
    by blast
  with t a have "ThreadSamplingData_destroy 7 (Init (Some (OutputReceiver [])) Ext_init) ThreadSamplingData_init =
     Inr ((Init (Some (OutputReceiver [])) Ext_init)\<lparr>receiver := Some (OutputReceiver [ThreadOutput [] 7])\<rparr>)"
    by auto
  moreover from t have "ThreadSamplingData_destroy 7 Ext_init ThreadSamplingData_init = Inl NullDereference"
    by blast
  ultimately show ?thesis using r by blast
qed

text \<open>
  C10, as amended. The parent id that \<open>Update\<close> computes is the path id the state had
  before the call. In every state reached from the constructor by any sequence of scope
  entries, scope exits and samples, nested or not, and for any hash function, colliding or
  not, that id is 0 or a key of the table whose entry points to a node of the tree; so
  \<open>Update\<close> succeeds and the lookup of the parent neither inserts nor dereferences a null
  pointer.
\<close>

theorem Update_parent_always_present:
  assumes reach: "run hash_fn evs ThreadSamplingData_init = Inr s"
  shows "(current_scope_hash s XOR hash_fn nm) XOR hash_fn nm = current_scope_hash s \<and>
         (current_scope_hash s = 0 \<or>
          (\<exists>p m. scope_data s (current_scope_hash s) = Some (Some p) \<and>
                 node_at (thread_output s) p = Some m)) \<and>
         (\<exists>s'. Update hash_fn nm s = Inr s')"
proof -
  from reach have inv: "state_invariant s" by (rule reachable_invariant)
  have "\<exists>p m. scope_data s (current_scope_hash s) = Some (Some p) \<and>
                 node_at (thread_output s) p = Some m" if "current_scope_hash s \<noteq> 0"
    using state_invariant_current [OF inv that] by blast
  moreover from Update_invariant [OF inv, of hash_fn nm]
  have "\<exists>s'. Update hash_fn nm s = Inr s'" by blast
  ultimately show ?thesis
    using xor_cancel [of "current_scope_hash s" "hash_fn nm"] by blast
qed

theorem Update_parent_always_present_witness:
  "run example_hash [Enter ''a'', Enter ''bb'', Exit ''a''] ThreadSamplingData_init =
     Inr \<lparr>current_scope_hash = 2, total_samples = 0,
          scope_data = [1 \<mapsto> Some [0], 3 \<mapsto> Some [0, 0], 2 \<mapsto> Some [0, 0, 0]],
          current_scope = Some [0, 0, 0],
          thread_output =
            [ScopeOutput [ScopeOutput [ScopeOutput [] ''a'' 0 (Fin 0)] ''bb'' 0 (Fin 0)] ''a'' 0 (Fin 0)]\<rparr> \<and>
   (\<exists>s'. Update example_hash ''ccc''
      \<lparr>current_scope_hash = 2, total_samples = 0,
       scope_data = [1 \<mapsto> Some [0], 3 \<mapsto> Some [0, 0], 2 \<mapsto> Some [0, 0, 0]],
       current_scope = Some [0, 0, 0],
       thread_output =
         [ScopeOutput [ScopeOutput [ScopeOutput [] ''a'' 0 (Fin 0)] ''bb'' 0 (Fin 0)] ''a'' 0 (Fin 0)]\<rparr> = Inr s')"
proof -
  have r: "run example_hash [Enter ''a'', Enter ''bb'', Exit ''a''] ThreadSamplingData_init =
     Inr \<lparr>current_scope_hash = 2, total_samples = 0,
          scope_data = [1 \<mapsto> Some [0], 3 \<mapsto> Some [0, 0], 2 \<mapsto> Some [0, 0, 0]],
          current_scope = Some [0, 0, 0],
          thread_output =
            [ScopeOutput [ScopeOutput [ScopeOutput [] ''a'' 0 (Fin 0)] ''bb'' 0 (Fin 0)] ''a'' 0 (Fin 0)]\<rparr>"
    by (simp add: run_eval)
  from Update_parent_always_present [OF r, of "''ccc''"] r show ?thesis by blast
qed

text \<open>
  The second half of C10 fails: no sequence of calls, whatever its nesting and whatever
  the hash function, makes \<open>Update\<close> or \<open>TakeSample\<close> dereference a null pointer.
\<close>

theorem no_null_dereference_reachable:
  "\<not> (\<exists>hash_fn evs. run hash_fn evs ThreadSamplingData_init = Inl NullDereference)"
proof
  assume "\<exists>hash_fn evs. run hash_fn evs ThreadSamplingData_init = Inl NullDereference"
  then obtain hash_fn evs where "run hash_fn evs ThreadSamplingData_init = Inl NullDereference"
    by blast
  with run_invariant [OF state_invariant_init, of hash_fn evs] show False by auto
qed

end
